theory Spec2Isabelle
  imports Complex_Main "HOL-Library.Sublist"
begin

section \<open>JavaScript strings and numbers\<close>

text \<open>
  A JavaScript string is a sequence of UTF-16 code units; \<open>length\<close>, \<open>substring\<close>,
  \<open>split\<close>, \<open>trim\<close> and the regular expressions of the sources (none has the \<open>u\<close>
  flag) all work on code units. A string is therefore a list of code units, each a
  natural number. \<open>js\<close> writes an ASCII literal as such a list.

  A JavaScript number is modelled as an exact rational: every finite double is one.
  Rounding, \<open>NaN\<close> and the infinities are outside the model.
\<close>

type_synonym jsstring = "nat list"

definition js :: "string \<Rightarrow> jsstring" where
  "js s = map of_char s"

text \<open>
  ECMAScript \<open>WhiteSpace\<close> and \<open>LineTerminator\<close> code units: what \<open>trim\<close>,
  \<open>trimStart\<close> and the class \<open>\s\<close> strip or match. \<open>is_line_terminator\<close> is what
  the regular expression atom \<open>.\<close> refuses.
\<close>

definition is_line_terminator :: "nat \<Rightarrow> bool" where
  "is_line_terminator c = (c = 10 \<or> c = 13 \<or> c = 8232 \<or> c = 8233)"

definition is_whitespace :: "nat \<Rightarrow> bool" where
  "is_whitespace c =
     (c = 9 \<or> c = 11 \<or> c = 12 \<or> c = 32 \<or> c = 160 \<or> c = 5760
      \<or> (8192 \<le> c \<and> c \<le> 8202) \<or> c = 8239 \<or> c = 8287 \<or> c = 12288 \<or> c = 65279
      \<or> is_line_terminator c)"

definition is_digit :: "nat \<Rightarrow> bool" where
  "is_digit c = (48 \<le> c \<and> c \<le> 57)"

definition trimStart :: "jsstring \<Rightarrow> jsstring" where
  "trimStart s = dropWhile is_whitespace s"

definition trim :: "jsstring \<Rightarrow> jsstring" where
  "trim s = rev (dropWhile is_whitespace (rev (dropWhile is_whitespace s)))"

definition str_includes :: "jsstring \<Rightarrow> nat \<Rightarrow> bool" where
  "str_includes s c = (c \<in> set s)"

text \<open>
  \<open>s.split(sep)\<close> for a string separator: the pieces between the occurrences of
  \<open>sep\<close>, found left to right without overlap; the empty string gives one empty
  piece. (An empty separator splits into single code units.) \<open>acc\<close> is the piece
  being read.
\<close>

function split_from :: "jsstring \<Rightarrow> jsstring \<Rightarrow> jsstring \<Rightarrow> jsstring list" where
  "split_from sep acc s =
     (if s = [] then [acc]
      else if sep \<noteq> [] \<and> prefix sep s then acc # split_from sep [] (drop (length sep) s)
      else split_from sep (acc @ [hd s]) (tl s))"
  by pat_completeness auto
termination
  by (relation "measure (\<lambda>(sep, acc, s). length s)") auto

declare split_from.simps [simp del]

definition split :: "jsstring \<Rightarrow> jsstring \<Rightarrow> jsstring list" where
  "split s sep = (if sep = [] then map (\<lambda>c. [c]) s else split_from sep [] s)"

text \<open>\<open>s.substring(a, b)\<close> and \<open>s.substring(a)\<close>: both indices are clamped to
  \<open>[0, length]\<close>, and swapped when \<open>a > b\<close>.\<close>

definition clamp_index :: "jsstring \<Rightarrow> int \<Rightarrow> nat" where
  "clamp_index s i = (if i < 0 then 0 else min (nat i) (length s))"

definition substring :: "jsstring \<Rightarrow> int \<Rightarrow> int \<Rightarrow> jsstring" where
  "substring s a b =
     (let x = clamp_index s a; y = clamp_index s b
      in take (max x y - min x y) (drop (min x y) s))"

definition substring_from :: "jsstring \<Rightarrow> int \<Rightarrow> jsstring" where
  "substring_from s a = drop (clamp_index s a) s"

section \<open>slideHelpers.ts: text metrics and font fitting\<close>

record Dimensions =
  width :: rat
  height :: rat

record FontSizeRange =
  min_size :: rat
  max_size :: rat
  default_size :: rat

text \<open>\<open>Math.max(...xs)\<close> over the line lengths. The list is never empty here
  (\<open>split\<close> returns at least one piece).\<close>

fun Math_max :: "nat list \<Rightarrow> nat" where
  "Math_max [] = 0"
| "Math_max (x # xs) = fold max xs x"

definition estimateTextDimensions :: "jsstring \<Rightarrow> rat \<Rightarrow> Dimensions" where
  "estimateTextDimensions txt fontSize =
     (let avgCharWidth = fontSize * (6 / 10);
          lineHeight = fontSize * (12 / 10);
          lines = split txt [10];
          maxLineLength = Math_max (map length lines)
      in \<lparr> width = of_nat maxLineLength * avgCharWidth,
           height = of_nat (length lines) * lineHeight \<rparr>)"

definition fits :: "jsstring \<Rightarrow> rat \<Rightarrow> rat \<Rightarrow> rat \<Rightarrow> bool" where
  "fits txt containerWidth containerHeight fontSize =
     (let dimensions = estimateTextDimensions txt fontSize
      in width dimensions \<le> containerWidth \<and> height dimensions \<le> containerHeight)"

text \<open>The first loop of \<open>calculateOptimalFontSize\<close>: from the default size down in
  steps of 2 while the size is at least the minimum. \<open>Some\<close> is the size at which
  the loop breaks, \<open>None\<close> the loop running out.\<close>

function shrink_loop :: "jsstring \<Rightarrow> rat \<Rightarrow> rat \<Rightarrow> rat \<Rightarrow> rat \<Rightarrow> rat option" where
  "shrink_loop txt w h mn fontSize =
     (if fontSize \<ge> mn
      then (if fits txt w h fontSize then Some fontSize
            else shrink_loop txt w h mn (fontSize - 2))
      else None)"
  by pat_completeness auto
termination
proof (relation "measure (\<lambda>(txt, w, h, mn, fontSize). nat (\<lceil>fontSize - mn\<rceil> + 2))")
  show "wf (measure (\<lambda>(txt, w, h, mn, fontSize). nat (\<lceil>fontSize - mn\<rceil> + 2)))"
    by simp
next
  fix str :: jsstring and w h mn fontSize :: rat
  assume ge: "mn \<le> fontSize"
  have "\<lceil>fontSize - 2 - mn\<rceil> = \<lceil>fontSize - mn\<rceil> - 2"
    by (simp add: algebra_simps flip: ceiling_diff_numeral)
  moreover have "0 \<le> \<lceil>fontSize - mn\<rceil>"
    using ge by simp
  ultimately show "((str, w, h, mn, fontSize - 2), (str, w, h, mn, fontSize))
        \<in> measure (\<lambda>(txt, w, h, mn, fontSize). nat (\<lceil>fontSize - mn\<rceil> + 2))"
    by (simp del: zero_le_ceiling)
qed

declare shrink_loop.simps [simp del]

text \<open>The second loop: from the default size plus 2 up in steps of 2 while the size
  is at most the maximum; it breaks at the first size that does not fit and returns
  the last size accepted.\<close>

function grow_loop :: "jsstring \<Rightarrow> rat \<Rightarrow> rat \<Rightarrow> rat \<Rightarrow> rat \<Rightarrow> rat \<Rightarrow> rat" where
  "grow_loop txt w h mx fontSize optimalSize =
     (if fontSize \<le> mx
      then (if \<not> fits txt w h fontSize then optimalSize
            else grow_loop txt w h mx (fontSize + 2) fontSize)
      else optimalSize)"
  by pat_completeness auto
termination
proof (relation "measure (\<lambda>(txt, w, h, mx, fontSize, optimalSize). nat (\<lceil>mx - fontSize\<rceil> + 2))")
  show "wf (measure (\<lambda>(txt, w, h, mx, fontSize, optimalSize). nat (\<lceil>mx - fontSize\<rceil> + 2)))"
    by simp
next
  fix str :: jsstring and w h mx fontSize optimalSize :: rat
  assume le: "fontSize \<le> mx"
  have "\<lceil>mx - (fontSize + 2)\<rceil> = \<lceil>mx - fontSize\<rceil> - 2"
    by (simp add: algebra_simps flip: ceiling_diff_numeral)
  moreover have "0 \<le> \<lceil>mx - fontSize\<rceil>"
    using le by simp
  ultimately show "((str, w, h, mx, fontSize + 2, fontSize), (str, w, h, mx, fontSize, optimalSize))
        \<in> measure (\<lambda>(txt, w, h, mx, fontSize, optimalSize). nat (\<lceil>mx - fontSize\<rceil> + 2))"
    by (simp del: zero_le_ceiling)
qed

declare grow_loop.simps [simp del]

definition calculateOptimalFontSize ::
  "jsstring \<Rightarrow> rat \<Rightarrow> rat \<Rightarrow> FontSizeRange \<Rightarrow> rat" where
  "calculateOptimalFontSize txt containerWidth containerHeight fontSizeRange =
     (let optimalSize =
            (case shrink_loop txt containerWidth containerHeight
                    (min_size fontSizeRange) (default_size fontSizeRange) of
               Some fontSize \<Rightarrow> fontSize
             | None \<Rightarrow> default_size fontSizeRange)
      in if optimalSize = default_size fontSizeRange
         then grow_loop txt containerWidth containerHeight (max_size fontSizeRange)
                (default_size fontSizeRange + 2) optimalSize
         else optimalSize)"


section \<open>markdownParser.ts: inline formatting\<close>

datatype Format = Bold | Italic | Underline

record FormattedTextSegment =
  seg_text :: jsstring
  bold :: bool
  italic :: bool
  underline :: bool
  seg_fontSize :: "rat option"

record Replacement =
  start_pos :: nat
  end_pos :: nat
  inner_text :: jsstring
  format :: Format

text \<open>
  The three expressions of \<open>patterns\<close>, in the order of the source:
  \<open>/\*\*([^*]+)\*\*/g\<close> (bold), \<open>/__([^_]+)__/g\<close> (underline) and
  \<open>/\*([^*]+)\*/g\<close> (italic). Each is a delimiter, a non-empty run of code units
  other than one excluded code unit, and the delimiter again.
\<close>

definition patterns :: "Format list" where
  "patterns = [Bold, Underline, Italic]"

fun delimiter :: "Format \<Rightarrow> jsstring" where
  "delimiter Bold = [42, 42]"
| "delimiter Underline = [95, 95]"
| "delimiter Italic = [42]"

fun excluded :: "Format \<Rightarrow> nat" where
  "excluded Bold = 42"
| "excluded Underline = 95"
| "excluded Italic = 42"

text \<open>
  A match of the expression of \<open>f\<close> at the start of \<open>s\<close>: the length of the captured
  group, or \<open>None\<close>. After the delimiter the class takes the longest run first and
  gives code units back one at a time until the closing delimiter follows.
\<close>

definition match_here :: "Format \<Rightarrow> jsstring \<Rightarrow> nat option" where
  "match_here f s =
     (if prefix (delimiter f) s
      then (let body = drop (length (delimiter f)) s;
                run = length (takeWhile (\<lambda>c. c \<noteq> excluded f) body)
            in find (\<lambda>k. prefix (delimiter f) (drop k body)) (rev [1..<Suc run]))
      else None)"

definition overlaps :: "nat \<Rightarrow> nat \<Rightarrow> Replacement \<Rightarrow> bool" where
  "overlaps start end r =
     ((start \<ge> start_pos r \<and> start < end_pos r)
      \<or> (end > start_pos r \<and> end \<le> end_pos r)
      \<or> (start \<le> start_pos r \<and> end \<ge> end_pos r))"

text \<open>
  \<open>while ((match = pattern.regex.exec(markdown)) !== null)\<close> for one pattern:
  \<open>exec\<close> looks for the first position from \<open>lastIndex\<close> on at which the expression
  matches, and sets \<open>lastIndex\<close> to the end of the match; a match that overlaps no
  replacement found so far is pushed.
\<close>

function scan_pattern :: "Format \<Rightarrow> jsstring \<Rightarrow> nat \<Rightarrow> Replacement list \<Rightarrow> Replacement list" where
  "scan_pattern f markdown lastIndex replacements =
     (if length markdown \<le> lastIndex then replacements
      else (case match_here f (drop lastIndex markdown) of
              None \<Rightarrow> scan_pattern f markdown (lastIndex + 1) replacements
            | Some k \<Rightarrow>
               (let start = lastIndex;
                    end = lastIndex + (length (delimiter f) + k + length (delimiter f))
                in scan_pattern f markdown end
                     (if list_ex (overlaps start end) replacements then replacements
                      else replacements @
                             [\<lparr> start_pos = start, end_pos = end,
                                inner_text = take k (drop (start + length (delimiter f)) markdown),
                                format = f \<rparr>]))))"
  by pat_completeness auto
termination
proof (relation "measure (\<lambda>(f, markdown, lastIndex, replacements). length markdown - lastIndex)")
  show "wf (measure (\<lambda>(f, markdown, lastIndex, replacements). length markdown - lastIndex))"
    by simp
next
  fix f :: Format and markdown :: jsstring and lastIndex :: nat
    and replacements :: "Replacement list"
  assume "\<not> length markdown \<le> lastIndex"
  then show "((f, markdown, lastIndex + 1, replacements), (f, markdown, lastIndex, replacements))
        \<in> measure (\<lambda>(f, markdown, lastIndex, replacements). length markdown - lastIndex)"
    by simp
next
  fix f :: Format and markdown :: jsstring and lastIndex k start xend :: nat
    and replacements :: "Replacement list"
  assume inside: "\<not> length markdown \<le> lastIndex"
    and "start = lastIndex"
    and xend: "xend = lastIndex + (length (delimiter f) + k + length (delimiter f))"
  have "1 \<le> length (delimiter f)" by (cases f) simp_all
  then show "((f, markdown, xend,
           if list_ex (overlaps start xend) replacements then replacements
           else replacements @
                  [\<lparr> start_pos = start, end_pos = xend,
                     inner_text = take k (drop (start + length (delimiter f)) markdown),
                     format = f \<rparr>]),
          (f, markdown, lastIndex, replacements))
        \<in> measure (\<lambda>(f, markdown, lastIndex, replacements). length markdown - lastIndex)"
    using inside xend by (simp del: One_nat_def)
qed

declare scan_pattern.simps [simp del]

definition find_replacements :: "jsstring \<Rightarrow> Replacement list" where
  "find_replacements markdown = fold (\<lambda>f rs. scan_pattern f markdown 0 rs) patterns []"

definition plain_segment :: "jsstring \<Rightarrow> FormattedTextSegment" where
  "plain_segment t =
     \<lparr> seg_text = t, bold = False, italic = False, underline = False, seg_fontSize = None \<rparr>"

definition formatted_segment :: "Replacement \<Rightarrow> FormattedTextSegment" where
  "formatted_segment r =
     \<lparr> seg_text = inner_text r, bold = (format r = Bold), italic = (format r = Italic),
       underline = (format r = Underline), seg_fontSize = None \<rparr>"

text \<open>The loop that builds the segments; the state is \<open>(segments, textIndex)\<close>.\<close>

fun build_segments ::
  "jsstring \<Rightarrow> Replacement list \<Rightarrow> FormattedTextSegment list \<times> nat
     \<Rightarrow> FormattedTextSegment list \<times> nat" where
  "build_segments markdown [] st = st"
| "build_segments markdown (replacement # rs) (segments, textIndex) =
     (let segments1 =
            (if start_pos replacement > textIndex
             then (let plainText = substring markdown (int textIndex) (int (start_pos replacement))
                   in if plainText \<noteq> [] then segments @ [plain_segment plainText] else segments)
             else segments)
      in build_segments markdown rs
           (segments1 @ [formatted_segment replacement], end_pos replacement))"

text \<open>
  From \<open>replacements.sort(...)\<close> to the end of the function; the sort is stable. Both
  versions of \<open>parseMarkdownToFormattedText\<close> end with these lines.
\<close>

definition segments_of :: "jsstring \<Rightarrow> Replacement list \<Rightarrow> FormattedTextSegment list" where
  "segments_of markdown found =
     (let replacements = sort_key start_pos found;
          (segments, textIndex) = build_segments markdown replacements ([], 0);
          segments1 =
            (if textIndex < length markdown
             then (let remainingText = substring_from markdown (int textIndex)
                   in if remainingText \<noteq> [] then segments @ [plain_segment remainingText]
                      else segments)
             else segments)
      in if length segments1 = 0 then segments1 @ [plain_segment markdown] else segments1)"

definition parseMarkdownToFormattedText :: "jsstring \<Rightarrow> FormattedTextSegment list" where
  "parseMarkdownToFormattedText markdown = segments_of markdown (find_replacements markdown)"

subsection \<open>The version that masks the bold spans\<close>

text \<open>
  The second version of \<open>parseMarkdownToFormattedText\<close> among the sources
  (\<open>part_000\<close>) collects all bold and underline matches first, without an overlap
  test, replaces every bold match in a copy of the text by placeholders, looks for
  italic spans in the copy with \<open>/\*([^*\n]+?)\*/g\<close>, and only then sorts the matches
  and drops those that overlap an earlier one. The field \<open>fullMatch\<close> of a match is
  never read and is left out.
\<close>

function all_matches :: "Format \<Rightarrow> jsstring \<Rightarrow> nat \<Rightarrow> Replacement list" where
  "all_matches f markdown lastIndex =
     (if length markdown \<le> lastIndex then []
      else (case match_here f (drop lastIndex markdown) of
              None \<Rightarrow> all_matches f markdown (lastIndex + 1)
            | Some k \<Rightarrow>
                \<lparr> start_pos = lastIndex,
                  end_pos = lastIndex + (length (delimiter f) + k + length (delimiter f)),
                  inner_text = take k (drop (lastIndex + length (delimiter f)) markdown),
                  format = f \<rparr>
                # all_matches f markdown
                    (lastIndex + (length (delimiter f) + k + length (delimiter f)))))"
  by pat_completeness auto
termination
proof (relation "measure (\<lambda>(f, markdown, lastIndex). length markdown - lastIndex)")
  show "wf (measure (\<lambda>(f, markdown, lastIndex). length markdown - lastIndex))"
    by simp
next
  fix f :: Format and markdown :: jsstring and lastIndex :: nat
  assume "\<not> length markdown \<le> lastIndex"
  then show "((f, markdown, lastIndex + 1), (f, markdown, lastIndex))
        \<in> measure (\<lambda>(f, markdown, lastIndex). length markdown - lastIndex)"
    by simp
next
  fix f :: Format and markdown :: jsstring and lastIndex k :: nat
  assume inside: "\<not> length markdown \<le> lastIndex"
  have "1 \<le> length (delimiter f)" by (cases f) simp_all
  then show "((f, markdown, lastIndex + (length (delimiter f) + k + length (delimiter f))),
          (f, markdown, lastIndex))
        \<in> measure (\<lambda>(f, markdown, lastIndex). length markdown - lastIndex)"
    using inside by (simp del: One_nat_def)
qed

declare all_matches.simps [simp del]

record Mask =
  mask_start :: nat
  mask_end :: nat
  original :: jsstring

text \<open>
  The placeholder literal of the source holds three code units, U+00E2, U+2013 and
  U+02C6, and \<open>placeholder.repeat(mask.end - mask.start)\<close> repeats all three: a masked
  span is three times as long in the copy as it is in the text. (The comment above
  the loop reads "Replace bold patterns with placeholders of same length".)
\<close>

definition placeholder_literal :: jsstring where
  "placeholder_literal = [226, 8211, 710]"

definition apply_mask :: "Mask \<Rightarrow> jsstring \<Rightarrow> jsstring" where
  "apply_mask msk workingText =
     substring workingText 0 (int (mask_start msk))
       @ concat (replicate (mask_end msk - mask_start msk) placeholder_literal)
       @ substring_from workingText (int (mask_end msk))"

definition overlaps_mask :: "nat \<Rightarrow> nat \<Rightarrow> Mask \<Rightarrow> bool" where
  "overlaps_mask start end msk =
     ((start \<ge> mask_start msk \<and> start < mask_end msk)
      \<or> (end > mask_start msk \<and> end \<le> mask_end msk)
      \<or> (start < mask_start msk \<and> end > mask_end msk))"

text \<open>\<open>/\*([^*\n]+?)\*/\<close> at the start of \<open>s\<close>: the lazy class takes one code unit
  and then one more at a time until a \<open>*\<close> follows.\<close>

definition match_italic_lazy :: "jsstring \<Rightarrow> nat option" where
  "match_italic_lazy s =
     (if prefix [42] s
      then (let body = drop 1 s;
                run = length (takeWhile (\<lambda>c. c \<noteq> 42 \<and> c \<noteq> 10) body)
            in find (\<lambda>k. prefix [42] (drop k body)) [1..<Suc run])
      else None)"

function italic_matches :: "jsstring \<Rightarrow> jsstring \<Rightarrow> Mask list \<Rightarrow> nat \<Rightarrow> Replacement list" where
  "italic_matches workingText markdown boldMasks lastIndex =
     (if length workingText \<le> lastIndex then []
      else (case match_italic_lazy (drop lastIndex workingText) of
              None \<Rightarrow> italic_matches workingText markdown boldMasks (lastIndex + 1)
            | Some k \<Rightarrow>
                (if list_ex (overlaps_mask lastIndex (lastIndex + (1 + k + 1))) boldMasks then []
                 else [\<lparr> start_pos = lastIndex, end_pos = lastIndex + (1 + k + 1),
                         inner_text = substring markdown (int lastIndex + 1)
                                        (int (lastIndex + (1 + k + 1)) - 1),
                         format = Italic \<rparr>])
                @ italic_matches workingText markdown boldMasks (lastIndex + (1 + k + 1))))"
  by pat_completeness auto
termination
  by (relation "measure (\<lambda>(workingText, markdown, boldMasks, lastIndex).
                          length workingText - lastIndex)") auto

declare italic_matches.simps [simp del]

text \<open>The loop after \<open>allMatches.sort(...)\<close>: a match is kept when it overlaps none
  of those kept before it.\<close>

fun accept_matches :: "Replacement list \<Rightarrow> Replacement list \<Rightarrow> Replacement list" where
  "accept_matches [] replacements = replacements"
| "accept_matches (m # ms) replacements =
     accept_matches ms
       (if list_ex (overlaps (start_pos m) (end_pos m)) replacements then replacements
        else replacements @ [m])"

definition find_replacements_masking :: "jsstring \<Rightarrow> Replacement list" where
  "find_replacements_masking markdown =
     (let allMatches1 = all_matches Bold markdown 0 @ all_matches Underline markdown 0;
          boldMasks = rev (map (\<lambda>m. \<lparr> mask_start = start_pos m, mask_end = end_pos m,
                                      original = substring markdown (int (start_pos m))
                                                   (int (end_pos m)) \<rparr>)
                             (filter (\<lambda>m. format m = Bold) allMatches1));
          workingText = fold apply_mask boldMasks markdown;
          allMatches2 = allMatches1 @ italic_matches workingText markdown boldMasks 0
      in accept_matches (sort_key start_pos allMatches2) [])"

definition parseMarkdownToFormattedText_masking :: "jsstring \<Rightarrow> FormattedTextSegment list" where
  "parseMarkdownToFormattedText_masking markdown =
     segments_of markdown (find_replacements_masking markdown)"

subsection \<open>The version without an overlap test\<close>

text \<open>
  The third version of \<open>parseMarkdownToFormattedText\<close> among the sources
  (\<open>part_001\<close>) runs the three expressions in the order bold, italic, underline,
  pushes every match, sorts the matches by start position and builds the segments
  with the same loop. It has no overlap test.
\<close>

definition parseMarkdownToFormattedText_unfiltered :: "jsstring \<Rightarrow> FormattedTextSegment list" where
  "parseMarkdownToFormattedText_unfiltered markdown =
     segments_of markdown
       (concat (map (\<lambda>f. all_matches f markdown 0) [Bold, Italic, Underline]))"

subsection \<open>The text without the delimiters\<close>

text \<open>
  The property of section 8 in its own words: the input with the delimiters of the
  accepted spans removed. A position is a delimiter position when it lies in the
  opening or in the closing delimiter of an accepted span.
\<close>

definition is_delimiter_position :: "Replacement list \<Rightarrow> nat \<Rightarrow> bool" where
  "is_delimiter_position rs i =
     list_ex (\<lambda>r. (start_pos r \<le> i \<and> i < start_pos r + length (delimiter (format r)))
                 \<or> (end_pos r - length (delimiter (format r)) \<le> i \<and> i < end_pos r)) rs"

definition strip_delimiters :: "jsstring \<Rightarrow> Replacement list \<Rightarrow> jsstring" where
  "strip_delimiters markdown rs =
     map (\<lambda>i. markdown ! i) (filter (\<lambda>i. \<not> is_delimiter_position rs i) [0..<length markdown])"

text \<open>
  An accepted span is well formed when it lies inside the text, opens and closes with
  the delimiter of its format, and carries the text between the two delimiters.
  Two spans are disjoint when one ends before the other starts.
\<close>

definition span_ok :: "jsstring \<Rightarrow> Replacement \<Rightarrow> bool" where
  "span_ok markdown r =
     (let d = length (delimiter (format r))
      in start_pos r + 2 * d \<le> end_pos r \<and> end_pos r \<le> length markdown
         \<and> take d (drop (start_pos r) markdown) = delimiter (format r)
         \<and> take d (drop (end_pos r - d) markdown) = delimiter (format r)
         \<and> inner_text r = take (end_pos r - start_pos r - 2 * d) (drop (start_pos r + d) markdown))"

definition spans_disjoint :: "Replacement \<Rightarrow> Replacement \<Rightarrow> bool" where
  "spans_disjoint r q = (end_pos r \<le> start_pos q \<or> end_pos q \<le> start_pos r)"

text \<open>\<open>strip_delimiters\<close> from position \<open>t\<close> on.\<close>

definition strip_from :: "jsstring \<Rightarrow> Replacement list \<Rightarrow> nat \<Rightarrow> jsstring" where
  "strip_from markdown rs t =
     map (\<lambda>i. markdown ! i) (filter (\<lambda>i. \<not> is_delimiter_position rs i) [t..<length markdown])"

section \<open>markdownParser.ts: tables\<close>

text \<open>Reading a property of \<open>undefined\<close> throws a \<open>TypeError\<close>: an index
  past the end of \<open>lines\<close> followed by \<open>.trim()\<close> would do so.\<close>

datatype js_error = TypeError

record ParsedTable =
  headers :: "jsstring list"
  rows :: "jsstring list list"

definition trimmed_line :: "jsstring list \<Rightarrow> nat \<Rightarrow> js_error + jsstring" where
  "trimmed_line lines i = (if i < length lines then Inr (trim (lines ! i)) else Inl TypeError)"

text \<open>\<open>markdown.split('\n').filter((line) => line.trim())\<close>: the lines whose trimmed
  form is not the empty string.\<close>

definition nonblank_lines :: "jsstring \<Rightarrow> jsstring list" where
  "nonblank_lines markdown = filter (\<lambda>line. trim line \<noteq> []) (split markdown [10])"

text \<open>\<open>line.split('|').map((cell) => cell.trim()).filter((cell) => cell !== '')\<close>\<close>

definition split_cells :: "jsstring \<Rightarrow> jsstring list" where
  "split_cells line = filter (\<lambda>cell. cell \<noteq> []) (map trim (split line [124]))"

text \<open>
  The separator test \<open>/^\|?[\s-:|]+\|?$/\<close>. In the class, \<open>\s-:\<close> is no range
  (a class escape cannot bound one), so the class is whitespace, \<open>-\<close>, \<open>:\<close> and
  \<open>|\<close>. The matcher follows the expression: an optional \<open>|\<close>, then \<open>n \<ge> 1\<close> code
  units of the class, then an optional \<open>|\<close>, then the end of the string.
\<close>

definition separator_class :: "nat \<Rightarrow> bool" where
  "separator_class c = (is_whitespace c \<or> c = 45 \<or> c = 58 \<or> c = 124)"

definition class_run_then_end :: "jsstring \<Rightarrow> bool" where
  "class_run_then_end s =
     list_ex (\<lambda>n. list_all separator_class (take n s) \<and> (drop n s = [] \<or> drop n s = [124]))
       [1..<Suc (length s)]"

definition matches_separator :: "jsstring \<Rightarrow> bool" where
  "matches_separator s =
     ((s \<noteq> [] \<and> hd s = 124 \<and> class_run_then_end (tl s)) \<or> class_run_then_end s)"

text \<open>\<open>while (cells.length < headers.length) cells.push('')\<close>\<close>

function pad_cells :: "jsstring list \<Rightarrow> nat \<Rightarrow> jsstring list" where
  "pad_cells cells n = (if length cells < n then pad_cells (cells @ [[]]) n else cells)"
  by pat_completeness auto
termination
  by (relation "measure (\<lambda>(cells, n). n - length cells)") auto

declare pad_cells.simps [simp del]

text \<open>The loop over the data lines \<open>lines[2], lines[3], ...\<close>; the rows are pushed
  in the order of the lines.\<close>

fun parse_rows :: "jsstring list \<Rightarrow> jsstring list \<Rightarrow> jsstring list list" where
  "parse_rows hs [] = []"
| "parse_rows hs (line # ls) =
     (let rowLine = trim line
      in if \<not> str_includes rowLine 124 then parse_rows hs ls
         else (let cells = split_cells rowLine
               in if length cells > 0
                  then take (length hs) (pad_cells cells (length hs)) # parse_rows hs ls
                  else parse_rows hs ls))"

definition parseMarkdownTable :: "jsstring \<Rightarrow> js_error + ParsedTable option" where
  "parseMarkdownTable markdown =
     (let lines = nonblank_lines markdown
      in if length lines < 2 then Inr None
         else (case trimmed_line lines 0 of
                 Inl e \<Rightarrow> Inl e
               | Inr headerLine \<Rightarrow>
                  (case trimmed_line lines 1 of
                     Inl e \<Rightarrow> Inl e
                   | Inr separatorLine \<Rightarrow>
                      if \<not> str_includes headerLine 124 \<or> \<not> str_includes separatorLine 124
                      then Inr None
                      else (let hs = split_cells headerLine
                            in if \<not> matches_separator separatorLine then Inr None
                               else Inr (Some \<lparr> headers = hs,
                                                rows = parse_rows hs (drop 2 lines) \<rparr>)))))"

section \<open>markdownParser.ts: lists\<close>

record ParsedListItem =
  item_text :: jsstring
  level :: nat
  isNumbered :: bool

text \<open>
  The tail \<open>\s+(.+)\<close> of both list expressions, matched at the start of \<open>s\<close>:
  \<open>\s+\<close> takes \<open>k \<ge> 1\<close> whitespace code units, the longest run first and then
  shorter ones, until the code unit that follows exists and is no line terminator;
  \<open>(.+)\<close> then captures the longest run without a line terminator.
\<close>

definition whitespace_then_rest :: "jsstring \<Rightarrow> jsstring option" where
  "whitespace_then_rest s =
     (case find (\<lambda>k. case drop k s of [] \<Rightarrow> False | c # cs \<Rightarrow> \<not> is_line_terminator c)
             (rev [1..<Suc (length (takeWhile is_whitespace s))]) of
        None \<Rightarrow> None
      | Some k \<Rightarrow> Some (takeWhile (\<lambda>c. \<not> is_line_terminator c) (drop k s)))"

text \<open>\<open>trimmed.match(/^[-*+]\s+(.+)/)\<close>: the capture, or \<open>None\<close> for \<open>null\<close>.\<close>

definition bulletMatch :: "jsstring \<Rightarrow> jsstring option" where
  "bulletMatch s =
     (case s of
        [] \<Rightarrow> None
      | c # cs \<Rightarrow> if c = 45 \<or> c = 42 \<or> c = 43 then whitespace_then_rest cs else None)"

text \<open>\<open>trimmed.match(/^(\d+)\.\s+(.+)/)\<close>: the second capture. \<open>\d+\<close> can only
  take the whole run of digits, since a \<open>.\<close> must follow it.\<close>

definition numberMatch :: "jsstring \<Rightarrow> jsstring option" where
  "numberMatch s =
     (if takeWhile is_digit s = [] then None
      else (case dropWhile is_digit s of
              [] \<Rightarrow> None
            | c # cs \<Rightarrow> if c = 46 then whitespace_then_rest cs else None))"

fun list_items :: "jsstring list \<Rightarrow> ParsedListItem list" where
  "list_items [] = []"
| "list_items (line # ls) =
     (let trimmed = trim line
      in if trimmed = [] then list_items ls
         else (let leadingSpaces = length line - length (trimStart line);
                   lvl = leadingSpaces div 2
               in case bulletMatch trimmed of
                    Some captured \<Rightarrow>
                      \<lparr> item_text = captured, level = lvl, isNumbered = False \<rparr> # list_items ls
                  | None \<Rightarrow>
                     (case numberMatch trimmed of
                        Some captured \<Rightarrow>
                          \<lparr> item_text = captured, level = lvl, isNumbered = True \<rparr>
                            # list_items ls
                      | None \<Rightarrow>
                          \<lparr> item_text = trimmed, level = lvl, isNumbered = False \<rparr>
                            # list_items ls)))"

definition parseMarkdownList :: "jsstring \<Rightarrow> ParsedListItem list" where
  "parseMarkdownList markdown = list_items (nonblank_lines markdown)"

section \<open>slideHelpers.ts: splitting text over slides\<close>

text \<open>
  The innermost loop, \<open>while (sentence.length > maxCharsPerSlide)\<close>: it pushes the
  first \<open>maxCharsPerSlide - 3\<close> code units followed by \<open>...\<close> and goes on with
  \<open>sentence.substring(maxCharsPerSlide - 3)\<close>. With a budget of 3 or less the
  substring is the whole sentence again and the loop does not end: the result is
  \<open>None\<close>. \<open>Some\<close> carries what is left of the sentence and the slides.
\<close>

partial_function (option) hard_chunk_loop ::
  "int \<Rightarrow> jsstring \<Rightarrow> jsstring list \<Rightarrow> (jsstring \<times> jsstring list) option" where
  [code]: "hard_chunk_loop maxCharsPerSlide sentence slides =
     (if int (length sentence) > maxCharsPerSlide
      then hard_chunk_loop maxCharsPerSlide
             (substring_from sentence (maxCharsPerSlide - 3))
             (slides @ [substring sentence 0 (maxCharsPerSlide - 3) @ js ''...''])
      else Some (sentence, slides))"

definition endsWith :: "jsstring \<Rightarrow> nat \<Rightarrow> bool" where
  "endsWith s c = (s \<noteq> [] \<and> last s = c)"

text \<open>One round of the loop over the sentences of a paragraph; the state is
  \<open>(slides, currentSlide)\<close>.\<close>

definition sentence_step ::
  "int \<Rightarrow> jsstring list \<times> jsstring \<Rightarrow> jsstring \<Rightarrow> (jsstring list \<times> jsstring) option" where
  "sentence_step maxCharsPerSlide st sentence =
     (case st of (slides, currentSlide) \<Rightarrow>
        if int (length currentSlide) + int (length sentence) + 2 \<le> maxCharsPerSlide
        then Some (slides, currentSlide @ (if currentSlide \<noteq> [] then js ''. '' else []) @ sentence)
        else (let slides1 = (if currentSlide \<noteq> []
                             then slides @ [currentSlide @ (if endsWith currentSlide 46 then [] else js ''.'')]
                             else slides);
                  currentSlide1 = (if currentSlide \<noteq> [] then [] else currentSlide)
              in if int (length sentence) > maxCharsPerSlide
                 then (case hard_chunk_loop maxCharsPerSlide sentence slides1 of
                         None \<Rightarrow> None
                       | Some (rest, slides2) \<Rightarrow>
                           Some (slides2, if length rest > 0 then rest else currentSlide1))
                 else Some (slides1, sentence)))"

fun sentences_loop ::
  "int \<Rightarrow> jsstring list \<times> jsstring \<Rightarrow> jsstring list \<Rightarrow> (jsstring list \<times> jsstring) option" where
  "sentences_loop maxCharsPerSlide st [] = Some st"
| "sentences_loop maxCharsPerSlide st (sentence # ss) =
     (case sentence_step maxCharsPerSlide st sentence of
        None \<Rightarrow> None
      | Some st1 \<Rightarrow> sentences_loop maxCharsPerSlide st1 ss)"

text \<open>One round of the loop over the paragraphs.\<close>

definition paragraph_step ::
  "int \<Rightarrow> jsstring list \<times> jsstring \<Rightarrow> jsstring \<Rightarrow> (jsstring list \<times> jsstring) option" where
  "paragraph_step maxCharsPerSlide st paragraph =
     (case st of (slides, currentSlide) \<Rightarrow>
        if int (length currentSlide) + int (length paragraph) + 2 \<le> maxCharsPerSlide
        then Some (slides, currentSlide @ (if currentSlide \<noteq> [] then [10, 10] else []) @ paragraph)
        else (let slides1 = (if currentSlide \<noteq> [] then slides @ [currentSlide] else slides);
                  currentSlide1 = (if currentSlide \<noteq> [] then [] else currentSlide)
              in if int (length paragraph) > maxCharsPerSlide
                 then sentences_loop maxCharsPerSlide (slides1, currentSlide1)
                        (split paragraph (js ''. ''))
                 else Some (slides1, paragraph)))"

fun paragraphs_loop ::
  "int \<Rightarrow> jsstring list \<times> jsstring \<Rightarrow> jsstring list \<Rightarrow> (jsstring list \<times> jsstring) option" where
  "paragraphs_loop maxCharsPerSlide st [] = Some st"
| "paragraphs_loop maxCharsPerSlide st (paragraph # ps) =
     (case paragraph_step maxCharsPerSlide st paragraph of
        None \<Rightarrow> None
      | Some st1 \<Rightarrow> paragraphs_loop maxCharsPerSlide st1 ps)"

text \<open>\<open>splitTextForSlides\<close>; \<open>None\<close> when the innermost loop does not end.\<close>

definition splitTextForSlides :: "jsstring \<Rightarrow> int \<Rightarrow> jsstring list option" where
  "splitTextForSlides txt maxCharsPerSlide =
     (if int (length txt) \<le> maxCharsPerSlide then Some [txt]
      else (case paragraphs_loop maxCharsPerSlide ([], []) (split txt [10, 10]) of
              None \<Rightarrow> None
            | Some (slides, currentSlide) \<Rightarrow>
                (let slides1 = (if currentSlide \<noteq> [] then slides @ [currentSlide] else slides)
                 in Some (if length slides1 > 0 then slides1 else [txt]))))"

section \<open>Font fitting: the result stays in the range\<close>

lemma shrink_loop_Some:
  "shrink_loop t w h mn fs = Some r \<Longrightarrow>
     mn \<le> r \<and> r \<le> fs \<and> (\<exists>j::nat. r = fs - 2 * of_nat j)"
proof (induction t w h mn fs rule: shrink_loop.induct)
  case (1 t w h mn fs)
  show ?case
  proof (cases "mn \<le> fs \<and> \<not> fits t w h fs")
    case True
    then have "shrink_loop t w h mn (fs - 2) = Some r"
      using "1.prems" by (simp add: shrink_loop.simps [of t w h mn fs])
    then have ih: "mn \<le> r \<and> r \<le> fs - 2 \<and> (\<exists>j::nat. r = fs - 2 - 2 * of_nat j)"
      using "1.IH" True by simp
    then obtain j :: nat where "r = fs - 2 - 2 * of_nat j" by blast
    then have "r = fs - 2 * of_nat (Suc j)" by simp
    then show ?thesis using ih by (metis add_le_cancel_left diff_add_cancel le_add_same_cancel1 order_trans zero_le_numeral diff_ge_0_iff_ge)
  next
    case False
    then have "r = fs \<and> mn \<le> fs"
      using "1.prems" by (auto simp: shrink_loop.simps [of t w h mn fs] split: if_splits)
    then show ?thesis by (auto intro: exI [of _ 0])
  qed
qed

lemma grow_loop_result:
  "grow_loop t w h mx fs opt = r \<Longrightarrow>
     r = opt \<or> (fs \<le> r \<and> r \<le> mx \<and> (\<exists>j::nat. r = fs + 2 * of_nat j))"
proof (induction t w h mx fs opt arbitrary: r rule: grow_loop.induct)
  case (1 t w h mx fs opt)
  show ?case
  proof (cases "fs \<le> mx \<and> fits t w h fs")
    case True
    then have "grow_loop t w h mx (fs + 2) fs = r"
      using "1.prems" by (simp add: grow_loop.simps [of t w h mx fs opt])
    then have "r = fs \<or> (fs + 2 \<le> r \<and> r \<le> mx \<and> (\<exists>j::nat. r = fs + 2 + 2 * of_nat j))"
      using "1.IH" True by simp
    then show ?thesis
    proof
      assume "r = fs"
      then show ?thesis using True by (auto intro: exI [of _ 0])
    next
      assume a: "fs + 2 \<le> r \<and> r \<le> mx \<and> (\<exists>j::nat. r = fs + 2 + 2 * of_nat j)"
      then obtain j :: nat where "r = fs + 2 + 2 * of_nat j" by blast
      then have "r = fs + 2 * of_nat (Suc j)" by simp
      then have "\<exists>j::nat. r = fs + 2 * of_nat j" by blast
      moreover have "fs \<le> r" using a by simp
      ultimately show ?thesis using a by blast
    qed
  next
    case False
    then have "r = opt"
      using "1.prems" by (auto simp: grow_loop.simps [of t w h mx fs opt] split: if_splits)
    then show ?thesis by simp
  qed
qed

lemma split_short: "split (js ''short'') [10] = [js ''short'']"
  by (simp add: split_def js_def split_from.simps)

lemma fits_short: "fits (js ''short'') 620 340 fs = (5 * (fs * (6 / 10)) \<le> 620 \<and> fs * (12 / 10) \<le> 340)"
  by (simp add: fits_def estimateTextDimensions_def split_short Let_def) (simp add: js_def)

text \<open>
  C4. For every text, box and font range with \<open>min \<le> default \<le> max\<close>, the size
  returned by \<open>calculateOptimalFontSize\<close> lies in \<open>[min, max]\<close>.
\<close>

theorem calculateOptimalFontSize_in_range:
  assumes "min_size r \<le> default_size r" and "default_size r \<le> max_size r"
  shows "min_size r \<le> calculateOptimalFontSize t w h r
       \<and> calculateOptimalFontSize t w h r \<le> max_size r"
proof -
  let ?d = "default_size r"
  define opt where "opt = (case shrink_loop t w h (min_size r) ?d of
                             Some fontSize \<Rightarrow> fontSize | None \<Rightarrow> ?d)"
  have res: "calculateOptimalFontSize t w h r =
               (if opt = ?d then grow_loop t w h (max_size r) (?d + 2) opt else opt)"
    by (simp add: calculateOptimalFontSize_def opt_def Let_def)
  have opt_range: "min_size r \<le> opt \<and> opt \<le> max_size r"
  proof (cases "shrink_loop t w h (min_size r) ?d")
    case None
    then show ?thesis using assms by (simp add: opt_def)
  next
    case (Some x)
    then show ?thesis using shrink_loop_Some [OF Some] assms by (simp add: opt_def)
  qed
  show ?thesis
  proof (cases "opt = ?d")
    case False
    then show ?thesis using res opt_range by simp
  next
    case True
    have "grow_loop t w h (max_size r) (?d + 2) opt = opt
            \<or> (?d + 2 \<le> grow_loop t w h (max_size r) (?d + 2) opt
                \<and> grow_loop t w h (max_size r) (?d + 2) opt \<le> max_size r)"
      using grow_loop_result [OF refl, of t w h "max_size r" "?d + 2" opt] by blast
    then show ?thesis using res True opt_range assms by auto
  qed
qed

theorem calculateOptimalFontSize_in_range_witness:
  "(12::rat) \<le> 18 \<and> (18::rat) \<le> 24
   \<and> 12 \<le> calculateOptimalFontSize (js ''a very long line of text'') 100 340
             \<lparr>min_size = 12, max_size = 24, default_size = 18\<rparr>
   \<and> calculateOptimalFontSize (js ''a very long line of text'') 100 340
             \<lparr>min_size = 12, max_size = 24, default_size = 18\<rparr> \<le> 24"
  using calculateOptimalFontSize_in_range
          [of "\<lparr>min_size = 12, max_size = 24, default_size = 18\<rparr>"
              "js ''a very long line of text''" 100 340]
  by simp

text \<open>
  C5. The scenario \<open>fit("short", 620, 340, {min: 12, max: 24, default: 18})\<close>. The text
  fits at the default size 18, so the first loop breaks there; the second loop then
  accepts 20, 22 and 24, which all fit, and the result is 24, not 18.
\<close>

theorem fit_short_is_not_18:
  "calculateOptimalFontSize (js ''short'') 620 340
     \<lparr>min_size = 12, max_size = 24, default_size = 18\<rparr> \<noteq> 18"
  by (simp add: calculateOptimalFontSize_def shrink_loop.simps grow_loop.simps fits_short)

text \<open>
  C5, as the code has it: the scenario returns 24, the largest size of the range,
  reached by the second loop from the default 18 through 20 and 22.
\<close>

theorem fit_short_is_24:
  "calculateOptimalFontSize (js ''short'') 620 340
     \<lparr>min_size = 12, max_size = 24, default_size = 18\<rparr> = 24"
  by (simp add: calculateOptimalFontSize_def shrink_loop.simps grow_loop.simps fits_short)

text \<open>
  C10. With \<open>min \<le> default \<le> max\<close>, the size returned is the default plus or minus
  an even number \<open>2j\<close>; so an endpoint of the range that is not of that form is never
  returned, whether or not the text would fit at it.
\<close>

theorem calculateOptimalFontSize_step_two:
  assumes "min_size r \<le> default_size r" and "default_size r \<le> max_size r"
  shows "(\<exists>j::nat. calculateOptimalFontSize t w h r = default_size r + 2 * of_nat j
                \<or> calculateOptimalFontSize t w h r = default_size r - 2 * of_nat j)
       \<and> ((\<forall>j::nat. max_size r \<noteq> default_size r + 2 * of_nat j)
             \<longrightarrow> calculateOptimalFontSize t w h r \<noteq> max_size r)
       \<and> ((\<forall>j::nat. min_size r \<noteq> default_size r - 2 * of_nat j)
             \<longrightarrow> calculateOptimalFontSize t w h r \<noteq> min_size r)"
proof -
  let ?d = "default_size r" and ?res = "calculateOptimalFontSize t w h r"
  define opt where "opt = (case shrink_loop t w h (min_size r) ?d of
                             Some fontSize \<Rightarrow> fontSize | None \<Rightarrow> ?d)"
  have res: "?res = (if opt = ?d then grow_loop t w h (max_size r) (?d + 2) opt else opt)"
    by (simp add: calculateOptimalFontSize_def opt_def Let_def)
  have opt_form: "\<exists>j::nat. opt = ?d - 2 * of_nat j"
  proof (cases "shrink_loop t w h (min_size r) ?d")
    case None
    then have "opt = ?d - 2 * of_nat (0::nat)" by (simp add: opt_def)
    then show ?thesis by blast
  next
    case (Some x)
    then show ?thesis using shrink_loop_Some [OF Some] by (simp add: opt_def)
  qed
  have form: "\<exists>j::nat. ?res = ?d + 2 * of_nat j \<or> ?res = ?d - 2 * of_nat j"
  proof (cases "opt = ?d")
    case False
    then show ?thesis using res opt_form by auto
  next
    case True
    from grow_loop_result [OF refl, of t w h "max_size r" "?d + 2" opt]
    have "?res = ?d \<or> (\<exists>j::nat. ?res = ?d + 2 + 2 * of_nat j)"
      using res True by auto
    then show ?thesis
    proof
      assume "?res = ?d"
      then have "?res = ?d + 2 * of_nat (0::nat)" by simp
      then show ?thesis by blast
    next
      assume "\<exists>j::nat. ?res = ?d + 2 + 2 * of_nat j"
      then obtain j :: nat where "?res = ?d + 2 + 2 * of_nat j" by blast
      then have "?res = ?d + 2 * of_nat (Suc j)" by simp
      then show ?thesis by blast
    qed
  qed
  have upper: "?res \<noteq> max_size r" if no: "\<forall>j::nat. max_size r \<noteq> ?d + 2 * of_nat j"
  proof
    assume eq: "?res = max_size r"
    from form obtain j :: nat where "?res = ?d + 2 * of_nat j \<or> ?res = ?d - 2 * of_nat j"
      by blast
    then show False
    proof
      assume "?res = ?d + 2 * of_nat j"
      then show False using eq no by metis
    next
      assume m: "?res = ?d - 2 * of_nat j"
      have "(0::rat) \<le> 2 * of_nat j" by simp
      then have "max_size r \<le> ?d" using m eq by linarith
      then have "max_size r = ?d + 2 * of_nat (0::nat)" using assms by simp
      then show False using no by blast
    qed
  qed
  have lower: "?res \<noteq> min_size r" if no: "\<forall>j::nat. min_size r \<noteq> ?d - 2 * of_nat j"
  proof
    assume eq: "?res = min_size r"
    from form obtain j :: nat where "?res = ?d + 2 * of_nat j \<or> ?res = ?d - 2 * of_nat j"
      by blast
    then show False
    proof
      assume "?res = ?d - 2 * of_nat j"
      then show False using eq no by metis
    next
      assume m: "?res = ?d + 2 * of_nat j"
      have "(0::rat) \<le> 2 * of_nat j" by simp
      then have "?d \<le> min_size r" using m eq by linarith
      then have "min_size r = ?d - 2 * of_nat (0::nat)" using assms by simp
      then show False using no by blast
    qed
  qed
  show ?thesis using form upper lower by blast
qed

theorem calculateOptimalFontSize_step_two_witness:
  "(12::rat) \<le> 18 \<and> (18::rat) \<le> 21
   \<and> (\<forall>j::nat. (21::rat) \<noteq> 18 + 2 * of_nat j)
   \<and> fits (js ''short'') 620 340 21
   \<and> calculateOptimalFontSize (js ''short'') 620 340
        \<lparr>min_size = 12, max_size = 21, default_size = 18\<rparr> \<noteq> 21"
proof -
  have odd: "\<forall>j::nat. (21::rat) \<noteq> 18 + 2 * of_nat j"
  proof (rule allI, rule notI)
    fix j :: nat
    assume "(21::rat) = 18 + 2 * of_nat j"
    then have "(of_nat 3 :: rat) = of_nat (2 * j)" by simp
    then have "3 = 2 * j" by (simp only: of_nat_eq_iff)
    then show False by presburger
  qed
  show ?thesis
    using odd calculateOptimalFontSize_step_two
          [of "\<lparr>min_size = 12, max_size = 21, default_size = 18\<rparr>"
              "js ''short''" 620 340]
    by (simp add: fits_short)
qed


section \<open>Tables: row width, the failure sentinel, the rows\<close>

lemma pad_cells_eq: "pad_cells cells n = cells @ replicate (n - length cells) []"
proof (induction cells n rule: pad_cells.induct)
  case (1 cells n)
  show ?case
  proof (cases "length cells < n")
    case True
    then have "n - length cells = Suc (n - Suc (length cells))" by simp
    then have "replicate (n - length cells) ([]::jsstring)
                 = [] # replicate (n - Suc (length cells)) []"
      by simp
    then show ?thesis
      using "1.IH" True by (simp add: pad_cells.simps [of cells n])
  next
    case False
    then show ?thesis by (simp add: pad_cells.simps [of cells n])
  qed
qed

lemma parse_rows_eq:
  "parse_rows hs ls =
     map (\<lambda>line. take (length hs)
                   (split_cells (trim line)
                      @ replicate (length hs - length (split_cells (trim line))) []))
       (filter (\<lambda>line. str_includes (trim line) 124 \<and> split_cells (trim line) \<noteq> []) ls)"
  by (induction ls) (simp_all add: Let_def pad_cells_eq)

lemma class_run_then_end_iff:
  "class_run_then_end s \<longleftrightarrow> s \<noteq> [] \<and> list_all separator_class s"
proof
  assume "class_run_then_end s"
  then obtain n where n: "1 \<le> n" "n \<le> length s" "list_all separator_class (take n s)"
      "drop n s = [] \<or> drop n s = [124]"
    by (auto simp: class_run_then_end_def list_ex_iff)
  have "list_all separator_class (drop n s)"
    using n(4) by (auto simp: separator_class_def)
  then have "list_all separator_class (take n s @ drop n s)"
    using n(3) by (simp only: list_all_append)
  then have "list_all separator_class s"
    by (simp only: append_take_drop_id)
  moreover have "s \<noteq> []" using n(1,2) by auto
  ultimately show "s \<noteq> [] \<and> list_all separator_class s"
    by blast
next
  assume a: "s \<noteq> [] \<and> list_all separator_class s"
  then have "length s \<in> set [1..<Suc (length s)]" by (cases s) auto
  then show "class_run_then_end s"
    using a unfolding class_run_then_end_def list_ex_iff
    by (intro bexI [of _ "length s"]) simp_all
qed

lemma matches_separator_iff:
  "matches_separator s \<longleftrightarrow> s \<noteq> [] \<and> list_all separator_class s"
proof (cases s)
  case Nil
  then show ?thesis by (simp add: matches_separator_def class_run_then_end_iff)
next
  case (Cons c cs)
  then show ?thesis
    by (auto simp: matches_separator_def class_run_then_end_iff separator_class_def)
qed

lemma parseMarkdownTable_cases:
  "parseMarkdownTable m =
     (if length (nonblank_lines m) < 2
         \<or> \<not> str_includes (trim (nonblank_lines m ! 0)) 124
         \<or> \<not> str_includes (trim (nonblank_lines m ! 1)) 124
         \<or> \<not> matches_separator (trim (nonblank_lines m ! 1))
      then Inr None
      else Inr (Some \<lparr> headers = split_cells (trim (nonblank_lines m ! 0)),
                       rows = parse_rows (split_cells (trim (nonblank_lines m ! 0)))
                                (drop 2 (nonblank_lines m)) \<rparr>))"
  by (simp add: parseMarkdownTable_def trimmed_line_def Let_def)


lemmas js_eval = js_def split_def split_from.simps trim_def trimStart_def is_whitespace_def
  is_line_terminator_def str_includes_def

lemmas table_eval = js_eval split_cells_def matches_separator_iff separator_class_def
  pad_cells_eq Let_def

lemma table_example_lines:
  "nonblank_lines (js ''| A | B |'' @ [10] @ js ''|---|---|'' @ [10] @ js ''| 1 |'')
     = [js ''| A | B |'', js ''|---|---|'', js ''| 1 |'']"
  by (simp add: nonblank_lines_def js_eval)

lemma table_example_short_row:
  "parseMarkdownTable (js ''| A | B |'' @ [10] @ js ''|---|---|'' @ [10] @ js ''| 1 |'')
     = Inr (Some \<lparr> headers = [js ''A'', js ''B''], rows = [[js ''1'', []]] \<rparr>)"
  unfolding parseMarkdownTable_cases table_example_lines
  by (simp add: table_eval)

lemma no_header_pipe_lines:
  "nonblank_lines (js ''A'' @ [10] @ js ''---'') = [js ''A'', js ''---'']"
  by (simp add: nonblank_lines_def js_eval)

lemma table_example_no_header_pipe:
  "parseMarkdownTable (js ''A'' @ [10] @ js ''---'') = Inr None"
  "matches_separator (trim (js ''---''))"
  "matches_separator (js ''---'')"
  "\<not> str_includes (trim (js ''A'')) 124"
  unfolding parseMarkdownTable_cases no_header_pipe_lines
  by (simp_all add: table_eval)

lemma pipe_only_row_lines:
  "nonblank_lines (js ''|A|'' @ [10] @ js ''|-|'' @ [10] @ js ''|'')
     = [js ''|A|'', js ''|-|'', js ''|'']"
  by (simp add: nonblank_lines_def js_eval)

lemma table_example_pipe_only_row:
  "parseMarkdownTable (js ''|A|'' @ [10] @ js ''|-|'' @ [10] @ js ''|'')
     = Inr (Some \<lparr> headers = [js ''A''], rows = [] \<rparr>)"
  "str_includes (trim (js ''|'')) 124"
  "split_cells (trim (js ''|'')) = []"
  unfolding parseMarkdownTable_cases pipe_only_row_lines
  by (simp_all add: table_eval)

text \<open>
  C6. Whenever \<open>parseMarkdownTable\<close> returns a table, every row has exactly as many
  cells as there are headers: the row is the cells of one data line, followed by empty
  strings when there are fewer cells than headers, and cut to the header count
  otherwise.
\<close>

theorem parseMarkdownTable_row_width:
  assumes "parseMarkdownTable m = Inr (Some t)" and "row \<in> set (rows t)"
  shows "length row = length (headers t)
       \<and> (\<exists>line \<in> set (drop 2 (nonblank_lines m)).
             row = (if length (split_cells (trim line)) < length (headers t)
                    then split_cells (trim line)
                           @ replicate (length (headers t) - length (split_cells (trim line))) []
                    else take (length (headers t)) (split_cells (trim line))))"
proof -
  let ?hs = "split_cells (trim (nonblank_lines m ! 0))"
  have t: "headers t = ?hs" "rows t = parse_rows ?hs (drop 2 (nonblank_lines m))"
    using assms(1) by (auto simp: parseMarkdownTable_cases split: if_splits)
  from assms(2) obtain line where line: "line \<in> set (drop 2 (nonblank_lines m))"
      and row: "row = take (length ?hs)
                        (split_cells (trim line)
                           @ replicate (length ?hs - length (split_cells (trim line))) [])"
    unfolding t(2) parse_rows_eq by auto
  have "length row = length ?hs" unfolding row by auto
  moreover have "row = (if length (split_cells (trim line)) < length ?hs
                    then split_cells (trim line)
                           @ replicate (length ?hs - length (split_cells (trim line))) []
                    else take (length ?hs) (split_cells (trim line)))"
    unfolding row by simp
  ultimately show ?thesis using line t(1) by auto
qed

theorem parseMarkdownTable_row_width_witness:
  "parseMarkdownTable (js ''| A | B |'' @ [10] @ js ''|---|---|'' @ [10] @ js ''| 1 |'')
     = Inr (Some \<lparr> headers = [js ''A'', js ''B''], rows = [[js ''1'', []]] \<rparr>)
   \<and> [js ''1'', []] \<in> set (rows \<lparr> headers = [js ''A'', js ''B''], rows = [[js ''1'', []]] \<rparr>)
   \<and> length [js ''1'', []] = length (headers \<lparr> headers = [js ''A'', js ''B''], rows = [[js ''1'', []]] \<rparr>)"
  using parseMarkdownTable_row_width
          [of "js ''| A | B |'' @ [10] @ js ''|---|---|'' @ [10] @ js ''| 1 |''"
              "\<lparr> headers = [js ''A'', js ''B''], rows = [[js ''1'', []]] \<rparr>"
              "[js ''1'', []]"]
        table_example_short_row
  by simp

text \<open>
  C7. The claim gives two reasons for \<open>null\<close>: fewer than two non-blank lines, or a
  second line that is no separator. The input \<open>"A\n---"\<close> has two non-blank lines
  and its second line matches the separator expression, and the result is \<open>null\<close>
  all the same: the function first requires a \<open>|\<close> in the header line and in the
  separator line.
\<close>

theorem parseMarkdownTable_null_with_valid_separator:
  "parseMarkdownTable (js ''A'' @ [10] @ js ''---'') = Inr None
   \<and> length (nonblank_lines (js ''A'' @ [10] @ js ''---'')) = 2
   \<and> matches_separator (trim (nonblank_lines (js ''A'' @ [10] @ js ''---'') ! 1))"
  by (simp only: no_header_pipe_lines table_example_no_header_pipe)
     (simp add: table_example_no_header_pipe)

text \<open>
  C7, as the code has it. \<open>parseMarkdownTable\<close> returns \<open>null\<close> exactly when there are
  fewer than two non-blank lines, or the trimmed first line has no \<open>|\<close>, or the trimmed
  second line has no \<open>|\<close>, or the trimmed second line does not match the separator
  expression; that expression accepts exactly the non-empty strings of whitespace,
  hyphens, colons and pipes; and the function never throws.
\<close>

theorem parseMarkdownTable_null_iff:
  "(parseMarkdownTable m = Inr None \<longleftrightarrow>
      length (nonblank_lines m) < 2
      \<or> \<not> str_includes (trim (nonblank_lines m ! 0)) 124
      \<or> \<not> str_includes (trim (nonblank_lines m ! 1)) 124
      \<or> \<not> matches_separator (trim (nonblank_lines m ! 1)))
   \<and> (matches_separator s \<longleftrightarrow> s \<noteq> [] \<and> list_all separator_class s)
   \<and> parseMarkdownTable m \<noteq> Inl e"
  using matches_separator_iff [of s]
  by (simp add: parseMarkdownTable_cases)

theorem parseMarkdownTable_null_iff_witness:
  "parseMarkdownTable (js ''A'' @ [10] @ js ''---'') = Inr None
   \<and> \<not> length (nonblank_lines (js ''A'' @ [10] @ js ''---'')) < 2
   \<and> \<not> str_includes (trim (nonblank_lines (js ''A'' @ [10] @ js ''---'') ! 0)) 124
   \<and> matches_separator (js ''---'')
   \<and> parseMarkdownTable (js ''A'' @ [10] @ js ''---'') \<noteq> Inl TypeError"
  using parseMarkdownTable_null_iff [of "js ''A'' @ [10] @ js ''---''" "js ''---''" TypeError]
        table_example_no_header_pipe
  unfolding no_header_pipe_lines
  by simp

text \<open>
  C8. For \<open>"|A|\n|-|\n|"\<close> the table is returned with no row, although the one line
  after the separator is not blank and contains a \<open>|\<close>: its cells, once trimmed and
  the empty ones removed, are none, and the guard \<open>cells.length > 0\<close> drops the line.
\<close>

theorem parseMarkdownTable_pipe_line_without_row:
  "parseMarkdownTable (js ''|A|'' @ [10] @ js ''|-|'' @ [10] @ js ''|'')
     = Inr (Some \<lparr> headers = [js ''A''], rows = [] \<rparr>)
   \<and> drop 2 (nonblank_lines (js ''|A|'' @ [10] @ js ''|-|'' @ [10] @ js ''|'')) = [js ''|'']
   \<and> str_includes (trim (js ''|'')) 124"
  by (simp only: pipe_only_row_lines table_example_pipe_only_row)
     (simp add: table_example_pipe_only_row)

text \<open>
  C8, as the code has it. When \<open>parseMarkdownTable\<close> returns a table, its rows are, in
  order, one row for each non-blank line after the separator whose trimmed form
  contains a \<open>|\<close> and has at least one non-empty cell; lines without a \<open>|\<close> (and lines
  with only empty cells) are skipped without an error. So the number of rows is the
  number of such lines.
\<close>

theorem parseMarkdownTable_rows:
  assumes "parseMarkdownTable m = Inr (Some t)"
  shows "rows t =
           map (\<lambda>line. take (length (headers t))
                         (split_cells (trim line)
                            @ replicate (length (headers t) - length (split_cells (trim line))) []))
             (filter (\<lambda>line. str_includes (trim line) 124 \<and> split_cells (trim line) \<noteq> [])
                (drop 2 (nonblank_lines m)))
       \<and> length (rows t) =
           length (filter (\<lambda>line. str_includes (trim line) 124 \<and> split_cells (trim line) \<noteq> [])
                     (drop 2 (nonblank_lines m)))"
proof -
  let ?hs = "split_cells (trim (nonblank_lines m ! 0))"
  have t: "headers t = ?hs" "rows t = parse_rows ?hs (drop 2 (nonblank_lines m))"
    using assms(1) by (auto simp: parseMarkdownTable_cases split: if_splits)
  show ?thesis unfolding t parse_rows_eq by simp
qed

theorem parseMarkdownTable_rows_witness:
  "parseMarkdownTable (js ''|A|'' @ [10] @ js ''|-|'' @ [10] @ js ''|'')
     = Inr (Some \<lparr> headers = [js ''A''], rows = [] \<rparr>)
   \<and> length (rows \<lparr> headers = [js ''A''], rows = [] \<rparr>)
       = length (filter (\<lambda>line. str_includes (trim line) 124 \<and> split_cells (trim line) \<noteq> [])
                   [js ''|''])"
  using parseMarkdownTable_rows
          [of "js ''|A|'' @ [10] @ js ''|-|'' @ [10] @ js ''|''"
              "\<lparr> headers = [js ''A''], rows = [] \<rparr>"]
        table_example_pipe_only_row
  unfolding pipe_only_row_lines
  by simp



section \<open>Lists: the level of an item\<close>

lemma list_items_levels:
  "\<forall>line \<in> set ls. trim line \<noteq> [] \<Longrightarrow>
     map level (list_items ls) = map (\<lambda>line. length (takeWhile is_whitespace line) div 2) ls"
proof (induction ls)
  case Nil
  then show ?case by simp
next
  case (Cons line ls)
  have len: "length line - length (trimStart line) = length (takeWhile is_whitespace line)"
    by (metis trimStart_def add_diff_cancel_right' length_append takeWhile_dropWhile_id)
  show ?case using Cons
    by (simp add: Let_def len split: option.split)
qed

lemma nonblank_lines_trim: "\<forall>line \<in> set (nonblank_lines m). trim line \<noteq> []"
  by (simp add: nonblank_lines_def)

lemma takeWhile_spaces:
  assumes "rest \<noteq> []" and "\<not> is_whitespace (hd rest)"
  shows "takeWhile is_whitespace (replicate j 32 @ rest) = replicate j 32"
proof (induction j)
  case 0
  show ?case using assms by (cases rest) simp_all
next
  case (Suc j)
  have "is_whitespace 32" by (simp add: is_whitespace_def)
  then show ?case using Suc by simp
qed

text \<open>
  C9. \<open>parseMarkdownList\<close> returns one item for each non-blank line, in order, and
  none for a blank line; the level of an item is the number of leading whitespace
  code units of its line (what \<open>trimStart\<close> removes) divided by 2, rounded down. So a
  line that starts with exactly \<open>2k\<close> spaces, followed by a code unit that is no
  whitespace, gives level \<open>k\<close>.
\<close>

theorem parseMarkdownList_levels:
  "map level (parseMarkdownList m)
     = map (\<lambda>line. length (takeWhile is_whitespace line) div 2)
         (filter (\<lambda>line. trim line \<noteq> []) (split m [10]))
   \<and> (\<forall>i k rest. i < length (nonblank_lines m)
          \<and> nonblank_lines m ! i = replicate (2 * k) 32 @ rest
          \<and> rest \<noteq> [] \<and> \<not> is_whitespace (hd rest)
        \<longrightarrow> level (parseMarkdownList m ! i) = k)"
proof -
  have lv: "map level (parseMarkdownList m)
              = map (\<lambda>line. length (takeWhile is_whitespace line) div 2) (nonblank_lines m)"
    unfolding parseMarkdownList_def
    by (rule list_items_levels) (rule nonblank_lines_trim)
  have "level (parseMarkdownList m ! i) = k"
    if i: "i < length (nonblank_lines m)"
      and line: "nonblank_lines m ! i = replicate (2 * k) 32 @ rest"
      and rest: "rest \<noteq> []" "\<not> is_whitespace (hd rest)"
    for i k rest
  proof -
    have "length (parseMarkdownList m) = length (nonblank_lines m)"
      using lv by (metis length_map)
    then have "level (parseMarkdownList m ! i) = map level (parseMarkdownList m) ! i"
      using i by simp
    also have "\<dots> = length (takeWhile is_whitespace (nonblank_lines m ! i)) div 2"
      unfolding lv using i by simp
    also have "\<dots> = k"
      unfolding line using takeWhile_spaces [OF rest] by simp
    finally show ?thesis .
  qed
  then show ?thesis using lv by (simp add: nonblank_lines_def)
qed

lemma list_example_lines:
  "nonblank_lines (js ''- top'' @ [10] @ js '''' @ [10] @ js ''  - nested'')
     = [js ''- top'', js ''  - nested'']"
  by (simp add: nonblank_lines_def js_eval)

lemma list_example:
  "parseMarkdownList (js ''- top'' @ [10] @ js '''' @ [10] @ js ''  - nested'')
     = [\<lparr> item_text = js ''top'', level = 0, isNumbered = False \<rparr>,
        \<lparr> item_text = js ''nested'', level = 1, isNumbered = False \<rparr>]"
  unfolding parseMarkdownList_def list_example_lines
  by (simp add: js_eval bulletMatch_def whitespace_then_rest_def Let_def)

theorem parseMarkdownList_levels_witness:
  "1 < length (nonblank_lines (js ''- top'' @ [10] @ js '''' @ [10] @ js ''  - nested''))
   \<and> nonblank_lines (js ''- top'' @ [10] @ js '''' @ [10] @ js ''  - nested'') ! 1
        = replicate (2 * 1) 32 @ js ''- nested''
   \<and> js ''- nested'' \<noteq> [] \<and> \<not> is_whitespace (hd (js ''- nested''))
   \<and> level (parseMarkdownList (js ''- top'' @ [10] @ js '''' @ [10] @ js ''  - nested'') ! 1) = 1"
proof -
  have a: "1 < length (nonblank_lines (js ''- top'' @ [10] @ js '''' @ [10] @ js ''  - nested''))"
    by (simp only: list_example_lines) simp
  have b: "nonblank_lines (js ''- top'' @ [10] @ js '''' @ [10] @ js ''  - nested'') ! 1
             = replicate (2 * 1) 32 @ js ''- nested''"
    by (simp only: list_example_lines) (simp add: js_def numeral_2_eq_2)
  have c: "js ''- nested'' \<noteq> [] \<and> \<not> is_whitespace (hd (js ''- nested''))"
    by (simp add: js_eval)
  from parseMarkdownList_levels [of "js ''- top'' @ [10] @ js '''' @ [10] @ js ''  - nested''"]
  have "level (parseMarkdownList (js ''- top'' @ [10] @ js '''' @ [10] @ js ''  - nested'') ! 1) = 1"
    using a b c by blast
  then show ?thesis using a b c by blast
qed


section \<open>Splitting text: the length of the chunks\<close>

text \<open>Every piece of a split is at most as long as the string: the pieces and the
  separators between them add up to its length.\<close>

lemma split_from_weight:
  "sep \<noteq> [] \<Longrightarrow>
     sum_list (map (\<lambda>piece. length piece + length sep) (split_from sep acc s))
       = length acc + length s + length sep"
proof (induction sep acc s rule: split_from.induct)
  case (1 sep acc s)
  show ?case
  proof (cases "s = []")
    case True
    then show ?thesis by (simp add: split_from.simps [of sep acc "[]"])
  next
    case False
    show ?thesis
    proof (cases "prefix sep s")
      case True
      then have le: "length sep \<le> length s" by (rule prefix_length_le)
      have "split_from sep acc s = acc # split_from sep [] (drop (length sep) s)"
        using False True "1.prems" by (simp add: split_from.simps [of sep acc s])
      then show ?thesis
        using "1.IH"(1) [OF False _ "1.prems"] True "1.prems" le by simp
    next
      case no: False
      have "split_from sep acc s = split_from sep (acc @ [hd s]) (tl s)"
        using False no by (simp add: split_from.simps [of sep acc s])
      moreover have "length (tl s) + 1 = length s" using False by (cases s) simp_all
      ultimately show ?thesis
        using "1.IH"(2) [OF False _ "1.prems"] no by simp
    qed
  qed
qed

lemma split_weight:
  "sep \<noteq> [] \<Longrightarrow>
     sum_list (map (\<lambda>piece. length piece + length sep) (split s sep)) = length s + length sep"
  by (simp add: split_def split_from_weight)

lemma split_piece_length:
  assumes "sep \<noteq> []" and "piece \<in> set (split s sep)"
  shows "length piece \<le> length s"
proof -
  have "length piece + length sep \<in> set (map (\<lambda>piece. length piece + length sep) (split s sep))"
    using assms(2) by simp
  then have "length piece + length sep
               \<le> sum_list (map (\<lambda>piece. length piece + length sep) (split s sep))"
    by (simp add: member_le_sum_list)
  then show ?thesis using split_weight [OF assms(1), of s] by simp
qed

lemma hard_chunk_loop_Some:
  assumes "hard_chunk_loop n s sl = Some r"
  shows "int (length (fst r)) \<le> n \<and> length (fst r) \<le> length s
     \<and> (n < int (length s) \<longrightarrow> 3 < n)
     \<and> (\<exists>chunks. snd r = sl @ chunks \<and> (\<forall>c \<in> set chunks. int (length c) = n)
            \<and> (n < int (length s) \<longrightarrow> chunks \<noteq> []))"
proof -
  let ?Q = "\<lambda>n s sl r. int (length (fst r)) \<le> n \<and> length (fst r) \<le> length s
     \<and> (n < int (length s) \<longrightarrow> 3 < n)
     \<and> (\<exists>chunks. snd r = sl @ chunks \<and> (\<forall>c \<in> set chunks. int (length c) = n)
            \<and> (n < int (length s) \<longrightarrow> chunks \<noteq> []))"
  have "?Q n s sl r"
  proof (rule hard_chunk_loop.raw_induct [where P = ?Q, OF _ assms])
    fix hcl :: "int \<Rightarrow> jsstring \<Rightarrow> jsstring list \<Rightarrow> (jsstring \<times> jsstring list) option"
    fix n s sl r
    assume ih_rule: "\<And>n s sl r. hcl n s sl = Some r \<Longrightarrow> ?Q n s sl r"
    assume body: "(if n < int (length s)
                   then hcl n (substring_from s (n - 3))
                          (sl @ [substring s 0 (n - 3) @ js ''...''])
                   else Some (s, sl)) = Some r"
    show "?Q n s sl r"
    proof (cases "n < int (length s)")
      case False
      then have "r = (s, sl)" using body by simp
      then show ?thesis using False by simp
    next
      case True
      let ?s1 = "substring_from s (n - 3)"
      let ?chunk = "substring s 0 (n - 3) @ js ''...''"
      have call: "hcl n ?s1 (sl @ [?chunk]) = Some r"
        using body True by simp
      note ih = ih_rule [OF call]
      have big: "3 < n"
      proof (rule ccontr)
        assume small: "\<not> 3 < n"
        then have "?s1 = s" by (simp add: substring_from_def clamp_index_def)
        then show False using ih True small by simp
      qed
      have len_chunk: "int (length ?chunk) = n"
        using big True by (simp add: substring_def clamp_index_def js_def Let_def)
      have len_s1: "length ?s1 \<le> length s"
        by (simp add: substring_from_def)
      from ih obtain chunks where chunks: "snd r = (sl @ [?chunk]) @ chunks"
          "\<forall>c \<in> set chunks. int (length c) = n"
        by blast
      have "snd r = sl @ (?chunk # chunks) \<and> (\<forall>c \<in> set (?chunk # chunks). int (length c) = n)
              \<and> ?chunk # chunks \<noteq> []"
        using chunks len_chunk by simp
      then have "\<exists>chunks. snd r = sl @ chunks \<and> (\<forall>c \<in> set chunks. int (length c) = n)
              \<and> (n < int (length s) \<longrightarrow> chunks \<noteq> [])"
        by blast
      then show ?thesis using ih big len_s1 by auto
    qed
  qed
  then show ?thesis .
qed


lemma sentence_step_bound:
  assumes step: "sentence_step n (sl, cur) s = Some (sl', cur')"
    and sl: "\<forall>c \<in> set sl. length c < L"
    and cur: "cur = [] \<or> int (length cur) \<le> n"
    and nL: "n < int L"
    and w: "length cur + (length s + 2) + W \<le> B + (if cur = [] then 2 else 0)"
    and BL: "B \<le> L"
  shows "(\<forall>c \<in> set sl'. length c < L) \<and> (cur' = [] \<or> int (length cur') \<le> n)
       \<and> length cur' + W \<le> B + (if cur' = [] then 2 else 0)"
proof (cases "int (length cur) + int (length s) + 2 \<le> n")
  case True
  then have eq: "sl' = sl" "cur' = cur @ (if cur \<noteq> [] then js ''. '' else []) @ s"
    using step by (simp_all add: sentence_step_def)
  have "int (length cur') \<le> n" using True eq(2) by (simp add: js_def)
  moreover have "length cur' + W \<le> B + (if cur' = [] then 2 else 0)"
    using w eq(2) by (cases "cur = []") (simp_all add: js_def)
  ultimately show ?thesis using sl eq(1) by simp
next
  case False
  let ?sl1 = "if cur \<noteq> [] then sl @ [cur @ (if endsWith cur 46 then [] else js ''.'')] else sl"
  have sl1: "\<forall>c \<in> set ?sl1. length c < L"
  proof (cases "cur = []")
    case True
    then show ?thesis using sl by simp
  next
    case ne: False
    then have "length cur + 2 \<le> L" using w BL by simp
    then have "length (cur @ (if endsWith cur 46 then [] else js ''.'')) < L"
      by (simp add: js_def)
    then show ?thesis using sl ne by simp
  qed
  have sW: "length s + W \<le> B" using w by (cases "cur = []") simp_all
  show ?thesis
  proof (cases "n < int (length s)")
    case long: True
    then obtain rest sl2 where hc: "hard_chunk_loop n s ?sl1 = Some (rest, sl2)"
        and res: "sl' = sl2" "cur' = (if length rest > 0 then rest else [])"
      using step False by (auto simp: sentence_step_def Let_def split: option.splits if_splits)
    from hard_chunk_loop_Some [OF hc] obtain chunks where
        rest: "int (length rest) \<le> n" "length rest \<le> length s"
        and chunks: "sl2 = ?sl1 @ chunks" "\<forall>c \<in> set chunks. int (length c) = n"
      by auto
    have "\<forall>c \<in> set chunks. length c < L" using chunks(2) nL by auto
    then have "\<forall>c \<in> set sl'. length c < L" using sl1 chunks(1) res(1) by auto
    moreover have "cur' = [] \<or> int (length cur') \<le> n" using res(2) rest(1) by simp
    moreover have "length cur' + W \<le> B + (if cur' = [] then 2 else 0)"
      using res(2) rest(2) sW by simp
    ultimately show ?thesis by blast
  next
    case short: False
    then have res: "sl' = ?sl1" "cur' = s"
      using step False by (auto simp: sentence_step_def Let_def split: if_splits)
    have "int (length cur') \<le> n" using short res(2) by simp
    moreover have "length cur' + W \<le> B + (if cur' = [] then 2 else 0)"
      using res(2) sW by simp
    ultimately show ?thesis using sl1 res(1) by simp
  qed
qed

lemma sentences_loop_bound:
  assumes "sentences_loop n (sl, cur) ss = Some (sl', cur')"
    and "\<forall>c \<in> set sl. length c < L"
    and "cur = [] \<or> int (length cur) \<le> n"
    and "n < int L"
    and "length cur + sum_list (map (\<lambda>s. length s + 2) ss) \<le> B + (if cur = [] then 2 else 0)"
    and "B \<le> L"
  shows "(\<forall>c \<in> set sl'. length c < L) \<and> (cur' = [] \<or> int (length cur') \<le> n)"
  using assms
proof (induction ss arbitrary: sl cur)
  case Nil
  then show ?case by simp
next
  case (Cons s ss)
  from Cons.prems(1) obtain sl1 cur1 where
      step: "sentence_step n (sl, cur) s = Some (sl1, cur1)"
      and rest: "sentences_loop n (sl1, cur1) ss = Some (sl', cur')"
    by (auto split: option.splits)
  have w: "length cur + (length s + 2) + sum_list (map (\<lambda>s. length s + 2) ss)
             \<le> B + (if cur = [] then 2 else 0)"
    using Cons.prems(5) by simp
  from sentence_step_bound [OF step Cons.prems(2) Cons.prems(3) Cons.prems(4) w Cons.prems(6)]
  have inv1: "\<forall>c \<in> set sl1. length c < L" "cur1 = [] \<or> int (length cur1) \<le> n"
      "length cur1 + sum_list (map (\<lambda>s. length s + 2) ss) \<le> B + (if cur1 = [] then 2 else 0)"
    by blast+
  show ?case
    by (rule Cons.IH [OF rest inv1(1) inv1(2) Cons.prems(4) inv1(3) Cons.prems(6)])
qed

lemma paragraph_step_bound:
  assumes step: "paragraph_step n (sl, cur) p = Some (sl', cur')"
    and sl: "\<forall>c \<in> set sl. length c < L"
    and cur: "cur = [] \<or> int (length cur) \<le> n"
    and nL: "n < int L"
    and pL: "length p \<le> L"
  shows "(\<forall>c \<in> set sl'. length c < L) \<and> (cur' = [] \<or> int (length cur') \<le> n)"
proof (cases "int (length cur) + int (length p) + 2 \<le> n")
  case True
  then have eq: "sl' = sl" "cur' = cur @ (if cur \<noteq> [] then [10, 10] else []) @ p"
    using step by (simp_all add: paragraph_step_def)
  have "int (length cur') \<le> n" using True eq(2) by simp
  then show ?thesis using sl eq(1) by simp
next
  case False
  let ?sl1 = "if cur \<noteq> [] then sl @ [cur] else sl"
  have sl1: "\<forall>c \<in> set ?sl1. length c < L"
    using sl cur nL by auto
  show ?thesis
  proof (cases "n < int (length p)")
    case long: True
    then have loop: "sentences_loop n (?sl1, []) (split p (js ''. '')) = Some (sl', cur')"
      using step False by (auto simp: paragraph_step_def Let_def split: if_splits)
    have "sum_list (map (\<lambda>s. length s + 2) (split p (js ''. ''))) = length p + 2"
      using split_weight [of "js ''. ''" p] by (simp add: js_def)
    then have w: "length ([]::jsstring) + sum_list (map (\<lambda>s. length s + 2) (split p (js ''. '')))
                    \<le> length p + (if ([]::jsstring) = [] then 2 else 0)"
      by simp
    show ?thesis
      by (rule sentences_loop_bound [OF loop sl1 _ nL w pL]) simp
  next
    case short: False
    then have res: "sl' = ?sl1" "cur' = p"
      using step False by (auto simp: paragraph_step_def Let_def split: if_splits)
    then show ?thesis using sl1 short by simp
  qed
qed

lemma paragraphs_loop_bound:
  assumes "paragraphs_loop n (sl, cur) ps = Some (sl', cur')"
    and "\<forall>c \<in> set sl. length c < L"
    and "cur = [] \<or> int (length cur) \<le> n"
    and "n < int L"
    and "\<forall>p \<in> set ps. length p \<le> L"
  shows "(\<forall>c \<in> set sl'. length c < L) \<and> (cur' = [] \<or> int (length cur') \<le> n)"
  using assms
proof (induction ps arbitrary: sl cur)
  case Nil
  then show ?case by simp
next
  case (Cons p ps)
  from Cons.prems(1) obtain sl1 cur1 where
      step: "paragraph_step n (sl, cur) p = Some (sl1, cur1)"
      and rest: "paragraphs_loop n (sl1, cur1) ps = Some (sl', cur')"
    by (auto split: option.splits)
  have pL: "length p \<le> L" using Cons.prems(5) by simp
  from paragraph_step_bound [OF step Cons.prems(2) Cons.prems(3) Cons.prems(4) pL]
  have inv1: "\<forall>c \<in> set sl1. length c < L" "cur1 = [] \<or> int (length cur1) \<le> n"
    by blast+
  have "\<forall>p \<in> set ps. length p \<le> L" using Cons.prems(5) by simp
  then show ?case
    by (rule Cons.IH [OF rest inv1(1) inv1(2) Cons.prems(4)])
qed



section \<open>Splitting text: when a chunk is produced, when the text comes back whole\<close>

lemma sentence_step_produces:
  assumes step: "sentence_step n (sl, cur) s = Some (sl', cur')"
    and nz: "sl \<noteq> [] \<or> cur \<noteq> [] \<or> s \<noteq> []"
  shows "sl' \<noteq> [] \<or> cur' \<noteq> []"
proof (cases "int (length cur) + int (length s) + 2 \<le> n")
  case True
  then have "sl' = sl" "cur' = cur @ (if cur \<noteq> [] then js ''. '' else []) @ s"
    using step by (simp_all add: sentence_step_def)
  then show ?thesis using nz by auto
next
  case False
  let ?sl1 = "if cur \<noteq> [] then sl @ [cur @ (if endsWith cur 46 then [] else js ''.'')] else sl"
  show ?thesis
  proof (cases "n < int (length s)")
    case long: True
    then obtain rest sl2 where hc: "hard_chunk_loop n s ?sl1 = Some (rest, sl2)"
        and res: "sl' = sl2"
      using step False by (auto simp: sentence_step_def Let_def split: option.splits if_splits)
    from hard_chunk_loop_Some [OF hc] long obtain chunks where
        "sl2 = ?sl1 @ chunks" "chunks \<noteq> []"
      by auto
    then show ?thesis using res by simp
  next
    case short: False
    then have res: "sl' = ?sl1" "cur' = s"
      using step False by (auto simp: sentence_step_def Let_def split: if_splits)
    then show ?thesis using nz by auto
  qed
qed

lemma sentence_step_empty:
  "0 \<le> n \<Longrightarrow> sentence_step n ([], []) [] = Some ([], [])"
  by (simp add: sentence_step_def)

lemma sentences_loop_produces:
  assumes "sentences_loop n (sl, cur) ss = Some (sl', cur')"
    and "sl \<noteq> [] \<or> cur \<noteq> [] \<or> (\<exists>s \<in> set ss. s \<noteq> [])"
  shows "sl' \<noteq> [] \<or> cur' \<noteq> []"
  using assms
proof (induction ss arbitrary: sl cur)
  case Nil
  then show ?case by simp
next
  case (Cons s ss)
  from Cons.prems(1) obtain sl1 cur1 where
      step: "sentence_step n (sl, cur) s = Some (sl1, cur1)"
      and rest: "sentences_loop n (sl1, cur1) ss = Some (sl', cur')"
    by (auto split: option.splits)
  show ?case
  proof (cases "sl \<noteq> [] \<or> cur \<noteq> [] \<or> s \<noteq> []")
    case True
    from sentence_step_produces [OF step True] have "sl1 \<noteq> [] \<or> cur1 \<noteq> []" .
    then show ?thesis using Cons.IH [OF rest] by blast
  next
    case False
    then have "\<exists>s \<in> set ss. s \<noteq> []" using Cons.prems(2) by auto
    then show ?thesis using Cons.IH [OF rest] by blast
  qed
qed

lemma sentences_loop_empty:
  "0 \<le> n \<Longrightarrow> \<forall>s \<in> set ss. s = [] \<Longrightarrow> sentences_loop n ([], []) ss = Some ([], [])"
  by (induction ss) (simp_all add: sentence_step_empty)

lemma paragraph_step_produces:
  assumes step: "paragraph_step n (sl, cur) p = Some (sl', cur')"
    and nz: "sl \<noteq> [] \<or> cur \<noteq> []
             \<or> \<not> (p = [] \<or> (n < int (length p) \<and> (\<forall>s \<in> set (split p (js ''. '')). s = [])))"
  shows "sl' \<noteq> [] \<or> cur' \<noteq> []"
proof (cases "int (length cur) + int (length p) + 2 \<le> n")
  case True
  then have "sl' = sl" "cur' = cur @ (if cur \<noteq> [] then [10, 10] else []) @ p"
    using step by (simp_all add: paragraph_step_def)
  then show ?thesis using nz by auto
next
  case False
  let ?sl1 = "if cur \<noteq> [] then sl @ [cur] else sl"
  show ?thesis
  proof (cases "n < int (length p)")
    case long: True
    then have loop: "sentences_loop n (?sl1, []) (split p (js ''. '')) = Some (sl', cur')"
      using step False by (auto simp: paragraph_step_def Let_def split: if_splits)
    have "?sl1 \<noteq> [] \<or> ([]::jsstring) \<noteq> [] \<or> (\<exists>s \<in> set (split p (js ''. '')). s \<noteq> [])"
      using nz long by auto
    then show ?thesis by (rule sentences_loop_produces [OF loop])
  next
    case short: False
    then have res: "sl' = ?sl1" "cur' = p"
      using step False by (auto simp: paragraph_step_def Let_def split: if_splits)
    then show ?thesis using nz short by auto
  qed
qed

lemma paragraph_step_void:
  assumes "0 \<le> n"
    and "p = [] \<or> (n < int (length p) \<and> (\<forall>s \<in> set (split p (js ''. '')). s = []))"
  shows "paragraph_step n ([], []) p = Some ([], [])"
  using assms sentences_loop_empty [of n "split p (js ''. '')"]
  by (auto simp: paragraph_step_def)

lemma paragraphs_loop_produces:
  assumes "paragraphs_loop n (sl, cur) ps = Some (sl', cur')"
    and "sl \<noteq> [] \<or> cur \<noteq> []
         \<or> (\<exists>p \<in> set ps. \<not> (p = [] \<or> (n < int (length p)
                                       \<and> (\<forall>s \<in> set (split p (js ''. '')). s = []))))"
  shows "sl' \<noteq> [] \<or> cur' \<noteq> []"
  using assms
proof (induction ps arbitrary: sl cur)
  case Nil
  then show ?case by simp
next
  case (Cons p ps)
  from Cons.prems(1) obtain sl1 cur1 where
      step: "paragraph_step n (sl, cur) p = Some (sl1, cur1)"
      and rest: "paragraphs_loop n (sl1, cur1) ps = Some (sl', cur')"
    by (auto split: option.splits)
  show ?case
  proof (cases "sl \<noteq> [] \<or> cur \<noteq> []
             \<or> \<not> (p = [] \<or> (n < int (length p) \<and> (\<forall>s \<in> set (split p (js ''. '')). s = [])))")
    case True
    from paragraph_step_produces [OF step True] have "sl1 \<noteq> [] \<or> cur1 \<noteq> []" .
    then show ?thesis using Cons.IH [OF rest] by blast
  next
    case False
    then have "\<exists>p \<in> set ps. \<not> (p = [] \<or> (n < int (length p)
                                       \<and> (\<forall>s \<in> set (split p (js ''. '')). s = [])))"
      using Cons.prems(2) by auto
    then show ?thesis using Cons.IH [OF rest] by blast
  qed
qed

lemma paragraphs_loop_void:
  "0 \<le> n \<Longrightarrow>
   \<forall>p \<in> set ps. p = [] \<or> (n < int (length p) \<and> (\<forall>s \<in> set (split p (js ''. '')). s = [])) \<Longrightarrow>
   paragraphs_loop n ([], []) ps = Some ([], [])"
  by (induction ps) (simp_all add: paragraph_step_void)

text \<open>
  C2, as the code has it. For a positive budget \<open>n\<close>, \<open>splitTextForSlides\<close> returns the
  one chunk \<open>[text]\<close> exactly when the text is at most \<open>n\<close> long, or no chunk at all
  is produced and the final fallback returns the text: that is when every paragraph
  (piece between \<open>"\n\n"\<close>) is empty, or is longer than \<open>n\<close> and made of \<open>". "\<close>
  separators only (all its sentences are empty).
\<close>

theorem splitTextForSlides_whole_text_iff:
  assumes "0 < n"
  shows "splitTextForSlides t n = Some [t] \<longleftrightarrow>
           int (length t) \<le> n
           \<or> (\<forall>p \<in> set (split t [10, 10]).
                 p = [] \<or> (n < int (length p) \<and> (\<forall>s \<in> set (split p (js ''. '')). s = [])))"
proof (cases "int (length t) \<le> n")
  case True
  then show ?thesis by (simp add: splitTextForSlides_def)
next
  case False
  then have nL: "n < int (length t)" by simp
  let ?ps = "split t [10, 10]"
  let ?void = "\<forall>p \<in> set ?ps.
                 p = [] \<or> (n < int (length p) \<and> (\<forall>s \<in> set (split p (js ''. '')). s = []))"
  show ?thesis
  proof
    assume "int (length t) \<le> n \<or> ?void"
    then have ?void using False by blast
    then have "paragraphs_loop n ([], []) ?ps = Some ([], [])"
      using assms paragraphs_loop_void [of n ?ps] by simp
    then show "splitTextForSlides t n = Some [t]"
      using False by (simp add: splitTextForSlides_def)
  next
    assume res: "splitTextForSlides t n = Some [t]"
    show "int (length t) \<le> n \<or> ?void"
    proof (rule ccontr)
      assume "\<not> (int (length t) \<le> n \<or> ?void)"
      then have nonvoid: "\<exists>p \<in> set ?ps. \<not> (p = [] \<or> (n < int (length p)
                                       \<and> (\<forall>s \<in> set (split p (js ''. '')). s = [])))"
        by blast
      from res False obtain sl cur where
          loop: "paragraphs_loop n ([], []) ?ps = Some (sl, cur)"
        by (auto simp: splitTextForSlides_def split: option.splits)
      let ?sl1 = "if cur \<noteq> [] then sl @ [cur] else sl"
      have nz: "sl \<noteq> [] \<or> cur \<noteq> []"
        using paragraphs_loop_produces [OF loop] nonvoid by blast
      then have "?sl1 \<noteq> []" by auto
      then have out: "?sl1 = [t]"
        using res False loop by (simp add: splitTextForSlides_def Let_def split: if_splits)
      have pieces: "\<forall>p \<in> set ?ps. length p \<le> length t"
        using split_piece_length [of "[10, 10]" _ t] by blast
      have "(\<forall>c \<in> set sl. length c < length t) \<and> (cur = [] \<or> int (length cur) \<le> n)"
        by (rule paragraphs_loop_bound [OF loop _ _ nL pieces]) simp_all
      then have "\<forall>c \<in> set ?sl1. length c < length t" using nL by auto
      then show False using out by simp
    qed
  qed
qed


lemma six_newlines_split: "split [10, 10, 10, 10, 10, 10] [10, 10] = [[], [], [], []]"
  by (simp add: split_def split_from.simps)

text \<open>
  C2. The claim says the text comes back as the only chunk only when it fits the
  budget. Six newlines with a budget of 5 do not fit, all four paragraphs are empty,
  no chunk is produced, and the fallback at the end returns the text whole.
\<close>

theorem splitTextForSlides_whole_text_over_budget:
  "splitTextForSlides [10, 10, 10, 10, 10, 10] 5 = Some [[10, 10, 10, 10, 10, 10]]
   \<and> \<not> int (length [10, 10, 10, 10, 10, 10 :: nat]) \<le> 5"
  by (simp add: splitTextForSlides_def six_newlines_split paragraph_step_def)

theorem splitTextForSlides_whole_text_iff_witness:
  "(0::int) < 5
   \<and> split [10, 10, 10, 10, 10, 10] [10, 10] = [[], [], [], []]
   \<and> splitTextForSlides [10, 10, 10, 10, 10, 10] 5 = Some [[10, 10, 10, 10, 10, 10]]"
  using splitTextForSlides_whole_text_iff [of 5 "[10, 10, 10, 10, 10, 10]"]
  by (simp add: six_newlines_split)

lemma split_example_sentences:
  "split (js ''aaaaaaaaaa. bbbbbbbbbb'') [10, 10] = [js ''aaaaaaaaaa. bbbbbbbbbb'']"
  "split (js ''aaaaaaaaaa. bbbbbbbbbb'') (js ''. '') = [js ''aaaaaaaaaa'', js ''bbbbbbbbbb'']"
  by (simp_all add: js_eval)

text \<open>
  C3. With a budget of 10, the text \<open>"aaaaaaaaaa. bbbbbbbbbb"\<close> is split into its two
  sentences of 10 code units each. The first is closed with an appended \<open>.\<close> and is
  11 long: a chunk that is no hard-chunk remainder and is longer than the budget.
\<close>

theorem splitTextForSlides_chunk_over_budget:
  "splitTextForSlides (js ''aaaaaaaaaa. bbbbbbbbbb'') 10
     = Some [js ''aaaaaaaaaa.'', js ''bbbbbbbbbb'']
   \<and> length (js ''aaaaaaaaaa.'') = 11"
  by (simp add: splitTextForSlides_def paragraph_step_def sentence_step_def endsWith_def
        split_example_sentences Let_def) (simp add: js_def)


section \<open>Splitting text: when the function returns\<close>

text \<open>With a budget above 3 every loop ends and at least one chunk is returned; with
  a budget of 3 or less, a sentence longer than the budget keeps the innermost loop
  running for ever.\<close>

lemma hard_chunk_loop_returns:
  "3 < n \<Longrightarrow> \<exists>r. hard_chunk_loop n s sl = Some r"
proof (induction "length s" arbitrary: s sl rule: less_induct)
  case less
  show ?case
  proof (cases "n < int (length s)")
    case False
    then show ?thesis by (subst hard_chunk_loop.simps) simp
  next
    case True
    have "length (substring_from s (n - 3)) < length s"
      using less.prems True by (simp add: substring_from_def clamp_index_def)
    from less.hyps [OF this less.prems]
    show ?thesis using True by (subst hard_chunk_loop.simps) simp
  qed
qed

lemma sentences_loop_returns:
  "3 < n \<Longrightarrow> \<exists>r. sentences_loop n st ss = Some r"
proof (induction ss arbitrary: st)
  case Nil
  then show ?case by simp
next
  case (Cons s ss)
  obtain sl cur where st: "st = (sl, cur)" by (cases st)
  let ?sl1 = "if cur \<noteq> [] then sl @ [cur @ (if endsWith cur 46 then [] else js ''.'')] else sl"
  obtain rest sl2 where hc: "hard_chunk_loop n s ?sl1 = Some (rest, sl2)"
    using hard_chunk_loop_returns [OF Cons.prems, of s ?sl1] by auto
  have "\<exists>r. sentence_step n (sl, cur) s = Some r"
    unfolding sentence_step_def Let_def using hc by simp
  then show ?case using Cons st by auto
qed

lemma paragraphs_loop_returns:
  "3 < n \<Longrightarrow> \<exists>r. paragraphs_loop n st ps = Some r"
proof (induction ps arbitrary: st)
  case Nil
  then show ?case by simp
next
  case (Cons p ps)
  obtain sl cur where st: "st = (sl, cur)" by (cases st)
  have "\<exists>r. paragraph_step n (sl, cur) p = Some r"
    using sentences_loop_returns [OF Cons.prems]
    by (simp add: paragraph_step_def Let_def)
  then show ?case using Cons st by auto
qed

lemma splitTextForSlides_returns:
  "3 < n \<Longrightarrow> \<exists>chunks. splitTextForSlides t n = Some chunks \<and> chunks \<noteq> []"
  using paragraphs_loop_returns [of n "([], [])" "split t [10, 10]"]
  by (auto simp: splitTextForSlides_def Let_def split: option.splits)

lemma hard_chunk_loop_diverges:
  "n \<le> 3 \<Longrightarrow> n < int (length s) \<Longrightarrow> hard_chunk_loop n s sl = None"
  using hard_chunk_loop_Some [of n s sl] by (cases "hard_chunk_loop n s sl") auto



section \<open>Inline formatting: the accepted spans\<close>

text \<open>Every span the scan accepts is well formed, and the accepted spans are disjoint
  from each other: the overlap test refuses every match that meets an earlier one.\<close>

lemma delimiter_length: "1 \<le> length (delimiter f)"
  by (cases f) simp_all

lemma find_Some_member: "find P xs = Some x \<Longrightarrow> P x \<and> x \<in> set xs"
  by (induction xs) (auto split: if_splits)

lemma match_here_Some:
  assumes "match_here f s = Some k"
  shows "1 \<le> k \<and> 2 * length (delimiter f) + k \<le> length s
       \<and> prefix (delimiter f) s
       \<and> prefix (delimiter f) (drop (length (delimiter f) + k) s)"
proof -
  let ?d = "delimiter f"
  let ?body = "drop (length ?d) s"
  have pre: "prefix ?d s" using assms by (simp add: match_here_def split: if_splits)
  then have ds: "length ?d \<le> length s" by (rule prefix_length_le)
  from assms pre have
    "find (\<lambda>k. prefix ?d (drop k ?body))
       (rev [1..<Suc (length (takeWhile (\<lambda>c. c \<noteq> excluded f) ?body))]) = Some k"
    by (simp add: match_here_def Let_def)
  from find_Some_member [OF this]
  have k: "k \<in> set (rev [1..<Suc (length (takeWhile (\<lambda>c. c \<noteq> excluded f) ?body))])"
      and close: "prefix ?d (drop k ?body)"
    by blast+
  have "length ?d \<le> length (drop k ?body)" using close by (rule prefix_length_le)
  then have "k + length ?d \<le> length ?body" using delimiter_length [of f] by simp
  then have "2 * length ?d + k \<le> length s" using ds by simp
  moreover have "1 \<le> k" using k by auto
  moreover have "prefix ?d (drop (length ?d + k) s)"
    using close by (simp add: add.commute)
  ultimately show ?thesis using pre by simp
qed

lemma not_overlaps_disjoint:
  assumes "\<not> overlaps s e q" and "s < e" and "start_pos q < end_pos q"
  shows "e \<le> start_pos q \<or> end_pos q \<le> s"
  using assms unfolding overlaps_def by linarith

lemma span_ok_nonempty: "span_ok m r \<Longrightarrow> start_pos r < end_pos r"
  using delimiter_length [of "format r"] by (simp add: span_ok_def Let_def)

lemma prefix_take_eq: "prefix d s \<Longrightarrow> take (length d) s = d"
  by (auto simp: prefix_def)

lemma accept_step:
  assumes ok: "\<forall>q \<in> set rs. span_ok m q" and dis: "sorted_wrt spans_disjoint rs"
    and r: "span_ok m r"
  shows "(\<forall>q \<in> set (if list_ex (overlaps (start_pos r) (end_pos r)) rs then rs else rs @ [r]).
            span_ok m q)
       \<and> sorted_wrt spans_disjoint
            (if list_ex (overlaps (start_pos r) (end_pos r)) rs then rs else rs @ [r])"
proof (cases "list_ex (overlaps (start_pos r) (end_pos r)) rs")
  case True
  then show ?thesis using ok dis by simp
next
  case False
  have "spans_disjoint q r" if "q \<in> set rs" for q
  proof -
    have "\<not> overlaps (start_pos r) (end_pos r) q" using False that by (auto simp: list_ex_iff)
    from not_overlaps_disjoint [OF this span_ok_nonempty [OF r]] ok that
    show ?thesis by (auto simp: spans_disjoint_def dest: span_ok_nonempty)
  qed
  then show ?thesis using False ok dis r by (simp add: sorted_wrt_append)
qed

lemma match_span_ok:
  assumes "match_here f (drop i m) = Some k" and "i < length m"
  shows "span_ok m \<lparr> start_pos = i,
                     end_pos = i + (length (delimiter f) + k + length (delimiter f)),
                     inner_text = take k (drop (i + length (delimiter f)) m),
                     format = f \<rparr>"
proof -
  let ?d = "delimiter f"
  from match_here_Some [OF assms(1)] have
      k: "1 \<le> k" and len: "2 * length ?d + k \<le> length (drop i m)"
      and p1: "prefix ?d (drop i m)" and p2: "prefix ?d (drop (length ?d + k) (drop i m))"
    by blast+
  have "take (length ?d) (drop i m) = ?d" using p1 by (rule prefix_take_eq)
  moreover have "take (length ?d) (drop (i + (length ?d + k)) m) = ?d"
    using prefix_take_eq [OF p2] by (simp add: add.commute)
  moreover have "i + (length ?d + k + length ?d) \<le> length m" using len assms(2) by simp
  ultimately show ?thesis by (simp add: span_ok_def Let_def ac_simps)
qed

lemma scan_pattern_inv:
  "\<forall>q \<in> set rs. span_ok m q \<Longrightarrow> sorted_wrt spans_disjoint rs \<Longrightarrow>
     (\<forall>q \<in> set (scan_pattern f m i rs). span_ok m q)
     \<and> sorted_wrt spans_disjoint (scan_pattern f m i rs)"
proof (induction f m i rs rule: scan_pattern.induct)
  case (1 f m i rs)
  show ?case
  proof (cases "length m \<le> i")
    case True
    then show ?thesis using "1.prems" by (simp add: scan_pattern.simps [of f m i rs])
  next
    case False
    show ?thesis
    proof (cases "match_here f (drop i m)")
      case None
      then show ?thesis
        using "1.IH"(1) [OF False None] "1.prems" False
        by (simp add: scan_pattern.simps [of f m i rs])
    next
      case (Some k)
      let ?e = "i + (length (delimiter f) + k + length (delimiter f))"
      let ?r = "\<lparr> start_pos = i, end_pos = ?e,
                  inner_text = take k (drop (i + length (delimiter f)) m), format = f \<rparr>"
      let ?rs1 = "if list_ex (overlaps i ?e) rs then rs else rs @ [?r]"
      have r: "span_ok m ?r" using match_span_ok [OF Some] False by simp
      from accept_step [OF "1.prems"(1) "1.prems"(2) r]
      have inv1: "\<forall>q \<in> set ?rs1. span_ok m q" "sorted_wrt spans_disjoint ?rs1"
        by simp_all
      have "scan_pattern f m i rs = scan_pattern f m ?e ?rs1"
        using False Some by (simp add: scan_pattern.simps [of f m i rs] Let_def)
      then show ?thesis
        using "1.IH"(2) [OF False Some refl refl inv1] by simp
    qed
  qed
qed

lemma find_replacements_inv:
  "(\<forall>q \<in> set (find_replacements m). span_ok m q)
   \<and> sorted_wrt spans_disjoint (find_replacements m)"
proof -
  have a: "(\<forall>q \<in> set (scan_pattern Bold m 0 []). span_ok m q)
           \<and> sorted_wrt spans_disjoint (scan_pattern Bold m 0 [])"
    by (rule scan_pattern_inv) simp_all
  then have b: "(\<forall>q \<in> set (scan_pattern Underline m 0 (scan_pattern Bold m 0 [])). span_ok m q)
           \<and> sorted_wrt spans_disjoint (scan_pattern Underline m 0 (scan_pattern Bold m 0 []))"
    by (intro scan_pattern_inv) simp_all
  then have "(\<forall>q \<in> set (scan_pattern Italic m 0
                           (scan_pattern Underline m 0 (scan_pattern Bold m 0 []))). span_ok m q)
           \<and> sorted_wrt spans_disjoint
               (scan_pattern Italic m 0 (scan_pattern Underline m 0 (scan_pattern Bold m 0 [])))"
    by (intro scan_pattern_inv) simp_all
  then show ?thesis by (simp add: find_replacements_def patterns_def)
qed



section \<open>Inline formatting: from the sorted spans to the segments\<close>

text \<open>Sorting by start position puts disjoint spans in a chain, each ending before the
  next starts; the loop over such a chain emits the text between the spans and the
  text inside them, which is the input without the delimiter positions.\<close>

lemma insort_key_sorted_wrt:
  assumes sym: "\<And>x y. R x y \<Longrightarrow> R y x"
    and "sorted_wrt R xs" and "\<forall>y \<in> set xs. R x y"
  shows "sorted_wrt R (insort_key f x xs)"
  using assms(2,3)
proof (induction xs)
  case Nil
  then show ?case by simp
next
  case (Cons a xs)
  then show ?case by (auto simp: set_insort_key dest: sym)
qed

lemma sort_key_sorted_wrt:
  assumes sym: "\<And>x y. R x y \<Longrightarrow> R y x" and "sorted_wrt R xs"
  shows "sorted_wrt R (sort_key f xs)"
  using assms(2)
proof (induction xs)
  case Nil
  then show ?case by simp
next
  case (Cons a xs)
  then have "sorted_wrt R (sort_key f xs)" "\<forall>y \<in> set (sort_key f xs). R a y"
    by simp_all
  then show ?case using insort_key_sorted_wrt [of R "sort_key f xs" a f] sym by simp
qed

lemma sorted_spans_chain:
  assumes ok: "\<forall>q \<in> set rs. span_ok m q" and dis: "sorted_wrt spans_disjoint rs"
  shows "sorted_wrt (\<lambda>r q. end_pos r \<le> start_pos q) (sort_key start_pos rs)"
proof -
  let ?xs = "sort_key start_pos rs"
  have sym: "\<And>x y. spans_disjoint x y \<Longrightarrow> spans_disjoint y x"
    by (auto simp: spans_disjoint_def)
  have d: "sorted_wrt spans_disjoint ?xs" using sort_key_sorted_wrt [OF sym dis] .
  have s: "sorted_wrt (\<lambda>r q. start_pos r \<le> start_pos q) ?xs"
    using sorted_sort_key [of start_pos rs] by (simp add: sorted_map)
  have okx: "\<forall>q \<in> set ?xs. span_ok m q" using ok by simp
  have "sorted_wrt (\<lambda>r q. spans_disjoint r q \<and> start_pos r \<le> start_pos q) ?xs"
    using d s by (simp add: sorted_wrt_iff_nth_less)
  then show ?thesis
  proof (rule sorted_wrt_mono_rel [rotated])
    fix r q
    assume rq: "r \<in> set ?xs" "q \<in> set ?xs"
      and a: "spans_disjoint r q \<and> start_pos r \<le> start_pos q"
    have "start_pos q < end_pos q" using okx rq(2) by (auto dest: span_ok_nonempty)
    then show "end_pos r \<le> start_pos q" using a by (auto simp: spans_disjoint_def)
  qed
qed

lemma map_nth_slice:
  "b \<le> length m \<Longrightarrow> map (\<lambda>i. m ! i) [a..<b] = take (b - a) (drop a m)"
  by (auto simp: list_eq_iff_nth_eq)

lemma filter_upt_none: "\<forall>i. a \<le> i \<and> i < b \<longrightarrow> \<not> P i \<Longrightarrow> filter P [a..<b] = []"
  by (auto simp: filter_empty_conv)

lemma filter_upt_all: "\<forall>i. a \<le> i \<and> i < b \<longrightarrow> P i \<Longrightarrow> filter P [a..<b] = [a..<b]"
  by (auto simp: filter_id_conv)

lemma upt_split3:
  "a \<le> b \<Longrightarrow> b \<le> c \<Longrightarrow> [a..<c] = [a..<b] @ [b..<c]"
  by (metis le_Suc_ex upt_add_eq_append)


lemma no_delimiter_before:
  assumes "\<forall>q \<in> set rs. span_ok m q \<and> e \<le> start_pos q" and "i < e"
  shows "\<not> is_delimiter_position rs i"
proof -
  have "\<not> ((start_pos q \<le> i \<and> i < start_pos q + length (delimiter (format q)))
            \<or> (end_pos q - length (delimiter (format q)) \<le> i \<and> i < end_pos q))"
    if "q \<in> set rs" for q
  proof -
    have "span_ok m q" "e \<le> start_pos q" using assms(1) that by blast+
    then show ?thesis using assms(2) by (auto simp: span_ok_def Let_def)
  qed
  then show ?thesis by (auto simp: is_delimiter_position_def list_ex_iff)
qed

lemma strip_from_Nil: "strip_from m [] t = drop t m"
proof -
  have "strip_from m [] t = map (\<lambda>i. m ! i) [t..<length m]"
    by (simp add: strip_from_def is_delimiter_position_def)
  also have "\<dots> = take (length m - t) (drop t m)" by (rule map_nth_slice) simp
  finally show ?thesis by simp
qed

lemma strip_from_Cons:
  assumes r: "span_ok m r" and t: "t \<le> start_pos r"
    and rs: "\<forall>q \<in> set rs. span_ok m q \<and> end_pos r \<le> start_pos q"
  shows "strip_from m (r # rs) t
           = take (start_pos r - t) (drop t m) @ inner_text r @ strip_from m rs (end_pos r)"
proof -
  let ?d = "length (delimiter (format r))"
  let ?s = "start_pos r" and ?e = "end_pos r"
  let ?P = "\<lambda>i. \<not> is_delimiter_position (r # rs) i"
  have bounds: "?s + 2 * ?d \<le> ?e" "?e \<le> length m"
    and inner: "inner_text r = take (?e - ?s - 2 * ?d) (drop (?s + ?d) m)"
    using r by (simp_all add: span_ok_def Let_def)
  have d1: "1 \<le> ?d" by (rule delimiter_length)
  have isd: "is_delimiter_position (r # rs) i
               = ((?s \<le> i \<and> i < ?s + ?d) \<or> (?e - ?d \<le> i \<and> i < ?e)
                  \<or> is_delimiter_position rs i)" for i
    by (simp add: is_delimiter_position_def)
  have before: "\<not> is_delimiter_position rs i" if "i < ?e" for i
    using no_delimiter_before [OF rs that] .
  have p1: "filter ?P [t..<?s] = [t..<?s]"
    by (rule filter_upt_all) (use bounds before in \<open>auto simp: isd\<close>)
  have p2: "filter ?P [?s..<?s + ?d] = []"
    by (rule filter_upt_none) (auto simp: isd)
  have p3: "filter ?P [?s + ?d..<?e - ?d] = [?s + ?d..<?e - ?d]"
    by (rule filter_upt_all) (use bounds before in \<open>auto simp: isd\<close>)
  have p4: "filter ?P [?e - ?d..<?e] = []"
    by (rule filter_upt_none) (auto simp: isd)
  have p5: "filter ?P [?e..<length m]
              = filter (\<lambda>i. \<not> is_delimiter_position rs i) [?e..<length m]"
    by (rule filter_cong) (use bounds d1 in \<open>auto simp: isd\<close>)
  have split: "[t..<length m]
                 = [t..<?s] @ [?s..<?s + ?d] @ [?s + ?d..<?e - ?d] @ [?e - ?d..<?e] @ [?e..<length m]"
  proof -
    have "[t..<length m] = [t..<?s] @ [?s..<length m]"
      using t bounds by (intro upt_split3) simp_all
    also have "[?s..<length m] = [?s..<?s + ?d] @ [?s + ?d..<length m]"
      using bounds by (intro upt_split3) simp_all
    also have "[?s + ?d..<length m] = [?s + ?d..<?e - ?d] @ [?e - ?d..<length m]"
      using bounds by (intro upt_split3) simp_all
    also have "[?e - ?d..<length m] = [?e - ?d..<?e] @ [?e..<length m]"
      using bounds by (intro upt_split3) simp_all
    finally show ?thesis by simp
  qed
  have "strip_from m (r # rs) t
          = map (\<lambda>i. m ! i) [t..<?s] @ map (\<lambda>i. m ! i) [?s + ?d..<?e - ?d]
            @ strip_from m rs ?e"
    unfolding strip_from_def split filter_append p1 p2 p3 p4 p5 by simp
  moreover have "map (\<lambda>i. m ! i) [t..<?s] = take (?s - t) (drop t m)"
    using bounds by (intro map_nth_slice) simp
  moreover have "map (\<lambda>i. m ! i) [?s + ?d..<?e - ?d] = inner_text r"
  proof -
    have "map (\<lambda>i. m ! i) [?s + ?d..<?e - ?d] = take (?e - ?d - (?s + ?d)) (drop (?s + ?d) m)"
      using bounds by (intro map_nth_slice) simp
    moreover have "?e - ?d - (?s + ?d) = ?e - ?s - 2 * ?d" by simp
    ultimately show ?thesis using inner by (simp only:)
  qed
  ultimately show ?thesis by simp
qed

lemma build_segments_concat:
  assumes "sorted_wrt (\<lambda>r q. end_pos r \<le> start_pos q) rs"
    and "\<forall>q \<in> set rs. span_ok m q \<and> t \<le> start_pos q"
  shows "concat (map seg_text (fst (build_segments m rs (segs, t))))
           @ drop (snd (build_segments m rs (segs, t))) m
         = concat (map seg_text segs) @ strip_from m rs t
       \<and> (rs \<noteq> [] \<longrightarrow> fst (build_segments m rs (segs, t)) \<noteq> [])
       \<and> (rs = [] \<longrightarrow> build_segments m rs (segs, t) = (segs, t))"
  using assms
proof (induction rs arbitrary: segs t)
  case Nil
  then show ?case by (simp add: strip_from_Nil)
next
  case (Cons r rs)
  let ?s = "start_pos r" and ?e = "end_pos r"
  let ?segs1 = "if ?s > t
                then (let plainText = substring m (int t) (int ?s)
                      in if plainText \<noteq> [] then segs @ [plain_segment plainText] else segs)
                else segs"
  have r: "span_ok m r" and t: "t \<le> ?s" using Cons.prems(2) by simp_all
  have rs: "\<forall>q \<in> set rs. span_ok m q \<and> ?e \<le> start_pos q"
    using Cons.prems by simp
  have chain: "sorted_wrt (\<lambda>r q. end_pos r \<le> start_pos q) rs" using Cons.prems(1) by simp
  have sm: "?s \<le> length m" using r by (simp add: span_ok_def Let_def)
  have sub: "substring m (int t) (int ?s) = take (?s - t) (drop t m)"
    using t sm by (simp add: substring_def clamp_index_def Let_def min_def max_def)
  have segs1: "concat (map seg_text ?segs1) = concat (map seg_text segs) @ take (?s - t) (drop t m)"
    using t by (auto simp: sub plain_segment_def Let_def)
  have step: "build_segments m (r # rs) (segs, t)
                = build_segments m rs (?segs1 @ [formatted_segment r], ?e)"
    by (simp add: Let_def)
  from Cons.IH [OF chain rs, of "?segs1 @ [formatted_segment r]"]
  have ih: "concat (map seg_text (fst (build_segments m rs (?segs1 @ [formatted_segment r], ?e))))
              @ drop (snd (build_segments m rs (?segs1 @ [formatted_segment r], ?e))) m
            = concat (map seg_text (?segs1 @ [formatted_segment r])) @ strip_from m rs ?e"
    and ne: "rs \<noteq> [] \<longrightarrow> fst (build_segments m rs (?segs1 @ [formatted_segment r], ?e)) \<noteq> []"
    and nil: "rs = [] \<longrightarrow> build_segments m rs (?segs1 @ [formatted_segment r], ?e)
                             = (?segs1 @ [formatted_segment r], ?e)"
    by blast+
  have "concat (map seg_text (?segs1 @ [formatted_segment r]))
          = concat (map seg_text segs) @ take (?s - t) (drop t m) @ inner_text r"
    using segs1 by (simp add: formatted_segment_def)
  then have "concat (map seg_text (fst (build_segments m (r # rs) (segs, t))))
              @ drop (snd (build_segments m (r # rs) (segs, t))) m
            = concat (map seg_text segs) @ strip_from m (r # rs) t"
    unfolding step using ih strip_from_Cons [OF r t rs] by simp
  moreover have "fst (build_segments m (r # rs) (segs, t)) \<noteq> []"
    unfolding step using ne nil by (cases "rs = []") auto
  ultimately show ?case by simp
qed


lemma is_delimiter_position_sort:
  "is_delimiter_position (sort_key f rs) i = is_delimiter_position rs i"
  by (simp add: is_delimiter_position_def list_ex_iff)

lemma strip_delimiters_sort:
  "strip_delimiters m rs = strip_from m (sort_key start_pos rs) 0"
  by (simp add: strip_delimiters_def strip_from_def is_delimiter_position_sort)

lemma segments_of_concat:
  assumes ok: "\<forall>q \<in> set found. span_ok m q" and dis: "sorted_wrt spans_disjoint found"
  shows "concat (map seg_text (segments_of m found)) = strip_delimiters m found"
proof -
  let ?rs = "sort_key start_pos found"
  let ?b = "build_segments m ?rs ([], 0)"
  let ?segs1 = "if snd ?b < length m
                then (let remainingText = substring_from m (int (snd ?b))
                      in if remainingText \<noteq> [] then fst ?b @ [plain_segment remainingText]
                         else fst ?b)
                else fst ?b"
  have res: "segments_of m found = (if length ?segs1 = 0 then ?segs1 @ [plain_segment m] else ?segs1)"
    by (simp add: segments_of_def Let_def case_prod_beta)
  have chain: "sorted_wrt (\<lambda>r q. end_pos r \<le> start_pos q) ?rs"
    by (rule sorted_spans_chain [OF ok dis])
  have okx: "\<forall>q \<in> set ?rs. span_ok m q \<and> 0 \<le> start_pos q" using ok by simp
  from build_segments_concat [OF chain okx, of "[]"]
  have b: "concat (map seg_text (fst ?b)) @ drop (snd ?b) m = strip_from m ?rs 0"
    and ne: "?rs \<noteq> [] \<longrightarrow> fst ?b \<noteq> []"
    and nil: "?rs = [] \<longrightarrow> ?b = ([], 0)"
    by simp_all
  have rem: "substring_from m (int (snd ?b)) = drop (snd ?b) m"
    by (simp add: substring_from_def clamp_index_def min_def)
  have segs1: "concat (map seg_text ?segs1) = strip_from m ?rs 0"
    using b by (auto simp: rem plain_segment_def Let_def)
  show ?thesis
  proof (cases "?segs1 = []")
    case False
    then show ?thesis using res segs1 by (simp add: strip_delimiters_sort)
  next
    case True
    then have "fst ?b = []" by (auto simp: Let_def split: if_splits)
    then have "?rs = []" using ne by blast
    then have "strip_from m ?rs 0 = m" by (simp add: strip_from_Nil)
    moreover have "concat (map seg_text (segments_of m found)) = m"
      using res True by (simp add: plain_segment_def)
    ultimately show ?thesis by (simp add: strip_delimiters_sort)
  qed
qed

section \<open>Inline formatting: the segments and the text\<close>

lemmas format_eval = match_here_def match_italic_lazy_def overlaps_def overlaps_mask_def
  apply_mask_def placeholder_literal_def substring_def substring_from_def clamp_index_def
  Let_def js_def

text \<open>
  The version with the overlap test inside the scan (\<open>markdownParser.ts\<close>): the texts
  of its segments, concatenated in order, are the input with the delimiter positions
  of the accepted spans removed and every other code unit kept once, in order; every
  accepted span lies inside the input, opens and closes with the delimiter of its
  format and carries the text between the two; any two accepted spans are disjoint.
\<close>

lemma reconstruction_with_overlap_test:
  "concat (map seg_text (parseMarkdownToFormattedText m))
     = strip_delimiters m (find_replacements m)
   \<and> (\<forall>r \<in> set (find_replacements m). span_ok m r)
   \<and> sorted_wrt spans_disjoint (find_replacements m)"
proof -
  have a: "(\<forall>q \<in> set (find_replacements m). span_ok m q)"
      "sorted_wrt spans_disjoint (find_replacements m)"
    using find_replacements_inv [of m] by blast+
  have "concat (map seg_text (parseMarkdownToFormattedText m))
          = strip_delimiters m (find_replacements m)"
    unfolding parseMarkdownToFormattedText_def by (rule segments_of_concat [OF a])
  then show ?thesis using a by blast
qed

lemma masking_example_spans:
  "find_replacements_masking (js ''**b** *c* 0123456789abcdef'')
     = [\<lparr> start_pos = 0, end_pos = 5, inner_text = js ''b'', format = Bold \<rparr>,
        \<lparr> start_pos = 16, end_pos = 19, inner_text = js ''7'', format = Italic \<rparr>]"
  by (simp add: find_replacements_masking_def all_matches.simps italic_matches.simps format_eval)

text \<open>
  C1. The property fails for the two other versions among the sources. In the
  version that masks the bold spans, the masked copy of
  \<open>"**b** *c* 0123456789abcdef"\<close> is ten code units longer than the text, the italic
  span \<open>*c*\<close> is found at 16 to 19 of the copy and taken as 16 to 19 of the text:
  the segments are \<open>"b"\<close>, \<open>" *c* 012345"\<close>, \<open>"7"\<close> and \<open>"9abcdef"\<close>, the
  delimiters of \<open>*c*\<close> remain and the code units \<open>6\<close> and \<open>8\<close> are in no segment.
  In the version without an overlap test, \<open>"**b**"\<close> gives \<open>"b"\<close>, \<open>"b"\<close> and \<open>"*"\<close>:
  the text of the span twice and one delimiter left over.
\<close>

theorem parseMarkdownToFormattedText_loses_text:
  "map seg_text (parseMarkdownToFormattedText_masking (js ''**b** *c* 0123456789abcdef''))
     = [js ''b'', js '' *c* 012345'', js ''7'', js ''9abcdef'']
   \<and> map seg_text (parseMarkdownToFormattedText_unfiltered (js ''**b**''))
       = [js ''b'', js ''b'', js ''*'']"
proof -
  have "map seg_text (parseMarkdownToFormattedText_masking (js ''**b** *c* 0123456789abcdef''))
          = [js ''b'', js '' *c* 012345'', js ''7'', js ''9abcdef'']"
    by (simp only: parseMarkdownToFormattedText_masking_def masking_example_spans)
       (simp add: segments_of_def format_eval plain_segment_def formatted_segment_def)
  moreover have "map seg_text (parseMarkdownToFormattedText_unfiltered (js ''**b**''))
          = [js ''b'', js ''b'', js ''*'']"
    by (simp add: parseMarkdownToFormattedText_unfiltered_def segments_of_def all_matches.simps
          format_eval plain_segment_def formatted_segment_def)
  ultimately show ?thesis by (simp only: simp_thms)
qed

text \<open>The scenario of the specification, \<open>format("Hello **world** and *friend*")\<close>.
  The version with the overlap test inside the scan loses the italic span: its italic
  scan first meets \<open>*world*\<close> inside the bold span and then \<open>* and *\<close>, both
  refused, and goes on after them. The masking version finds the italic span at the
  offsets of the longer copy and emits an empty italic segment.\<close>

lemma format_scenario_named:
  "parseMarkdownToFormattedText (js ''Hello **world** and *friend*'')
     = [plain_segment (js ''Hello ''),
        \<lparr> seg_text = js ''world'', bold = True, italic = False, underline = False,
          seg_fontSize = None \<rparr>,
        plain_segment (js '' and *friend*'')]"
  by (simp add: parseMarkdownToFormattedText_def segments_of_def
        find_replacements_def patterns_def scan_pattern.simps format_eval
        plain_segment_def formatted_segment_def)

lemma format_scenario_masking:
  "parseMarkdownToFormattedText_masking (js ''Hello **world** and *friend*'')
     = [plain_segment (js ''Hello ''),
        \<lparr> seg_text = js ''world'', bold = True, italic = False, underline = False,
          seg_fontSize = None \<rparr>,
        plain_segment (js '' and *friend*''),
        \<lparr> seg_text = [], bold = False, italic = True, underline = False,
          seg_fontSize = None \<rparr>]"
  by (simp add: parseMarkdownToFormattedText_masking_def segments_of_def
        find_replacements_masking_def all_matches.simps italic_matches.simps format_eval
        plain_segment_def formatted_segment_def)

end
